theory Spec2Isabelle
  imports Main "HOL-Library.Multiset" "HOL-Library.Sublist"
begin

section \<open>The exam generator: a shallow embedding of \<open>exam_generator.py\<close>\<close>

text \<open>
  The program loads banks of questions from YAML files, samples questions from the banks,
  shuffles the choices of every sampled question and renders the result as LaTeX.

  Conventions of the embedding.
  \<^item> A method takes the object \<open>self\<close> and returns it as the call leaves it, next to
    the value it returns.
  \<^item> A raised exception is a value \<open>Inl e\<close> of the sum type \<open>error + 'a\<close>; the
    constructors of \<open>error\<close> are the Python exception classes the program raises or lets
    through, carrying the message (or the missing key). The program defines no exception
    class of its own: both errors of \<open>generate_exam\<close> are \<open>ValueError\<close>s, told apart
    by their messages.
  \<^item> The process-wide random source of module \<open>random\<close> is a tape of natural numbers that
    is threaded through every call; \<open>randbelow n\<close> consumes one cell. Every sequence of
    answers of the real generator is produced by some tape.
  \<^item> The file system and \<open>yaml.safe_load\<close> are parameters.
  \<^item> Field values have the types of the bank-file schema: texts and choices are strings,
    points an integer, and \<open>correct_answers\<close> is either one string or a list of strings.
\<close>

subsection \<open>Exceptions\<close>

datatype error =
    ValueError string
  | KeyError string
  | IndexError
  | TypeError
  | FileNotFoundError string
  | OSError string
  | YAMLError

subsection \<open>The random source\<close>

type_synonym rng = "nat list"

text \<open>
  \<open>random._randbelow(n)\<close>: a number in \<open>[0, n)\<close>. The program only calls it with
  \<open>n > 0\<close>. An exhausted tape answers 0.
\<close>

fun randbelow :: "nat \<Rightarrow> rng \<Rightarrow> nat \<times> rng" where
  "randbelow n [] = (0, [])"
| "randbelow n (r # rs) = (r mod n, rs)"

text \<open>
  \<open>random.shuffle(x)\<close> of CPython:
  \<^verbatim>\<open>
  for i in reversed(range(1, len(x))):
      j = randbelow(i + 1)
      x[i], x[j] = x[j], x[i]
  \<close>
  \<open>shuffle_from k\<close> runs the iterations \<open>i = k, k - 1, ..., 1\<close>.
\<close>

fun shuffle_from :: "nat \<Rightarrow> 'a list \<Rightarrow> rng \<Rightarrow> 'a list \<times> rng" where
  "shuffle_from 0 x g = (x, g)"
| "shuffle_from (Suc k) x g =
     (case randbelow (Suc k + 1) g of
        (j, g') \<Rightarrow> shuffle_from k (x[Suc k := x ! j, j := x ! Suc k]) g')"

definition random_shuffle :: "'a list \<Rightarrow> rng \<Rightarrow> 'a list \<times> rng" where
  "random_shuffle x g = shuffle_from (length x - 1) x g"

subsection \<open>Class \<open>Question\<close>\<close>

text \<open>
  \<open>isinstance(self.correct_answers, list)\<close> is the test the methods make on the
  correct-answer value: \<open>Multi\<close> is a list of strings, \<open>Single\<close> a string.
\<close>

datatype answers = Single string | Multi "string list"

record Question =
  "text" :: string
  points :: int
  "type" :: string
  choices :: "string list"
  correct_answers :: answers
  id_attr :: string
  shuffled_indices :: "nat list option"

text \<open>\<open>shuffle_choices\<close>: lines 18 to 22. It stores a fresh permutation, whatever is cached.\<close>

definition shuffle_choices :: "Question \<Rightarrow> rng \<Rightarrow> Question \<times> rng" where
  "shuffle_choices self g =
     (let n = length (choices self) in
      case random_shuffle [0..<n] g of
        (ixs, g') \<Rightarrow> (self\<lparr>shuffled_indices := Some ixs\<rparr>, g'))"

text \<open>
  \<open>[xs[i] for i in ixs]\<close>; an index past the end raises \<open>IndexError\<close>. (The cached
  indices come from \<open>range(n)\<close>, so none is negative.)
\<close>

fun getitems :: "'a list \<Rightarrow> nat list \<Rightarrow> error + 'a list" where
  "getitems xs [] = Inr []"
| "getitems xs (i # ixs) =
     (if i < length xs
      then (case getitems xs ixs of Inl e \<Rightarrow> Inl e | Inr ys \<Rightarrow> Inr (xs ! i # ys))
      else Inl IndexError)"

text \<open>
  \<open>get_shuffled_choices\<close>: lines 24 to 39. The result is the returned pair, the object
  after the call and the random source after the call. (Iterating over a cache that is
  still \<open>None\<close> would be a \<open>TypeError\<close>; \<open>shuffle_choices\<close> always fills it.)
\<close>

definition get_shuffled_choices ::
  "Question \<Rightarrow> rng \<Rightarrow> error + ((string list \<times> answers) \<times> Question \<times> rng)" where
  "get_shuffled_choices self g =
     (case (if shuffled_indices self = None then shuffle_choices self g else (self, g)) of
        (self', g') \<Rightarrow>
          (case shuffled_indices self' of
             None \<Rightarrow> Inl TypeError
           | Some ixs \<Rightarrow>
               (case getitems (choices self') ixs of
                  Inl e \<Rightarrow> Inl e
                | Inr shuffled_choices \<Rightarrow>
                    (case correct_answers self' of
                       Multi cas \<Rightarrow>
                         Inr ((shuffled_choices,
                               Multi (filter (\<lambda>choice. choice \<in> set cas) shuffled_choices)),
                              self', g')
                     | Single ca \<Rightarrow>
                         Inr ((shuffled_choices, Single ca), self', g')))))"

subsection \<open>Rendering a question\<close>

text \<open>Python's \<open>str\<close> of an integer: decimal digits, with a minus sign when negative.\<close>

function digits :: "nat \<Rightarrow> string" where
  "digits n =
     (if n < 10 then [''0123456789'' ! n]
      else digits (n div 10) @ [''0123456789'' ! (n mod 10)])"
  by pat_completeness auto
termination
  by (relation "measure (\<lambda>n. n)") auto

declare digits.simps [simp del]

definition str_int :: "int \<Rightarrow> string" where
  "str_int i = (if i < 0 then CHR ''-'' # digits (nat (- i)) else digits (nat i))"

definition bs :: char where
  "bs = CHR 0x5C"

definition nl :: char where
  "nl = CHR 0x0A"

definition correctchoice_line :: "string \<Rightarrow> string" where
  "correctchoice_line choice = bs # ''correctchoice '' @ choice @ [nl]"

definition plainchoice_line :: "string \<Rightarrow> string" where
  "plainchoice_line choice = bs # ''choice '' @ choice @ [nl]"

text \<open>The body of the loop of \<open>to_latex\<close> (lines 53 to 64): the text appended for one choice.\<close>

definition choice_line :: "answers \<Rightarrow> string \<Rightarrow> string" where
  "choice_line correct choice =
     (case correct of
        Multi cas \<Rightarrow>
          (if choice \<in> set cas then correctchoice_line choice else plainchoice_line choice)
      | Single ca \<Rightarrow>
          (if choice = ca then correctchoice_line choice else plainchoice_line choice))"

definition question_header :: "Question \<Rightarrow> string" where
  "question_header self =
     (bs # ''question['' @ str_int (points self) @ ''] '' @ text self @ [nl])
     @ (bs # ''begin{choices}'' @ [nl])"

definition choices_end :: string where
  "choices_end = bs # ''end{choices}'' @ [nl]"

text \<open>\<open>to_latex\<close>: lines 41 to 67.\<close>

definition to_latex :: "Question \<Rightarrow> bool \<Rightarrow> rng \<Rightarrow> error + (string \<times> Question \<times> rng)" where
  "to_latex self shuffle g =
     (let latex = question_header self in
      case (if shuffle
            then (case get_shuffled_choices self g of
                    Inl e \<Rightarrow> Inl e
                  | Inr ((chs, correct), self', g') \<Rightarrow> Inr (chs, correct, self', g'))
            else Inr (choices self, correct_answers self, self, g)) of
        Inl e \<Rightarrow> Inl e
      | Inr (chs, correct, self', g') \<Rightarrow>
          Inr (fold (\<lambda>choice latex. latex @ choice_line correct choice) chs latex
                 @ choices_end,
               self', g'))"

subsection \<open>The object store\<close>

text \<open>
  \<open>Question\<close> objects are shared: a bank holds references to them, a sample is a list of
  references into the bank, and rendering a sampled question fills the shuffle cache of
  the object the bank holds. So the objects live in a store, a reference is an address,
  and constructing an object takes the next free address.
\<close>

type_synonym ref = nat

record store =
  objs :: "ref \<Rightarrow> Question"
  next_ref :: ref

definition alloc :: "Question \<Rightarrow> store \<Rightarrow> store" where
  "alloc q s = s\<lparr>objs := (objs s)(next_ref s := q), next_ref := Suc (next_ref s)\<rparr>"

subsection \<open>Bank files\<close>

text \<open>
  What \<open>yaml.safe_load\<close> returns for a bank file: a dictionary with the keys \<open>name\<close>
  and \<open>questions\<close>, the latter a list of dictionaries with the keys of a question. A
  key may be absent; a present key holds a value of the type the schema gives it.
\<close>

record question_dict =
  text_key :: "string option"
  points_key :: "int option"
  type_key :: "string option"
  choices_key :: "string list option"
  correct_answers_key :: "answers option"
  id_key :: "string option"

record bank_dict =
  name_key :: "string option"
  questions_key :: "question_dict list option"

text \<open>
  The environment: \<open>open(path).read()\<close> on the file system, and \<open>yaml.safe_load\<close>.
  Each returns its value or raises.
\<close>

type_synonym files = "string \<Rightarrow> error + string"

type_synonym yaml_loader = "string \<Rightarrow> error + bank_dict"

text \<open>
  \<open>Question.__init__\<close>: lines 9 to 16. \<open>data[k]\<close> raises \<open>KeyError\<close> on an absent
  key, \<open>data.get(k, d)\<close> gives the default.
\<close>

definition Question_init :: "question_dict \<Rightarrow> error + Question" where
  "Question_init data =
     (case text_key data of
        None \<Rightarrow> Inl (KeyError ''text'')
      | Some t \<Rightarrow>
     (let p = (case points_key data of None \<Rightarrow> 1 | Some p \<Rightarrow> p) in
      case type_key data of
        None \<Rightarrow> Inl (KeyError ''type'')
      | Some ty \<Rightarrow>
     (case choices_key data of
        None \<Rightarrow> Inl (KeyError ''choices'')
      | Some chs \<Rightarrow>
     (case correct_answers_key data of
        None \<Rightarrow> Inl (KeyError ''correct_answers'')
      | Some cas \<Rightarrow>
     (let i = (case id_key data of None \<Rightarrow> [] | Some i \<Rightarrow> i) in
      Inr \<lparr>text = t, points = p, type = ty, choices = chs, correct_answers = cas,
           id_attr = i, shuffled_indices = None\<rparr>)))))"

subsection \<open>Class \<open>QuestionBank\<close>\<close>

record QuestionBank =
  name :: string
  questions :: "ref list"

text \<open>\<open>[Question(q) for q in data['questions']]\<close>: one new object per entry, in order.\<close>

fun init_questions :: "question_dict list \<Rightarrow> store \<Rightarrow> error + (ref list \<times> store)" where
  "init_questions [] s = Inr ([], s)"
| "init_questions (d # ds) s =
     (case Question_init d of
        Inl e \<Rightarrow> Inl e
      | Inr q \<Rightarrow>
          (case init_questions ds (alloc q s) of
             Inl e \<Rightarrow> Inl e
           | Inr (rs, s') \<Rightarrow> Inr (next_ref s # rs, s')))"

text \<open>\<open>QuestionBank.__init__\<close>: lines 70 to 75.\<close>

definition QuestionBank_init ::
  "files \<Rightarrow> yaml_loader \<Rightarrow> string \<Rightarrow> store \<Rightarrow> error + (QuestionBank \<times> store)" where
  "QuestionBank_init fs safe_load yaml_file s =
     (case fs yaml_file of
        Inl e \<Rightarrow> Inl e
      | Inr f \<Rightarrow>
     (case safe_load f of
        Inl e \<Rightarrow> Inl e
      | Inr data \<Rightarrow>
     (case name_key data of
        None \<Rightarrow> Inl (KeyError ''name'')
      | Some n \<Rightarrow>
     (case questions_key data of
        None \<Rightarrow> Inl (KeyError ''questions'')
      | Some ds \<Rightarrow>
     (case init_questions ds s of
        Inl e \<Rightarrow> Inl e
      | Inr (rs, s') \<Rightarrow> Inr (\<lparr>name = n, questions = rs\<rparr>, s'))))))"

text \<open>
  \<open>random.sample(population, k)\<close> of CPython, on a copy \<open>pool\<close> of the population:
  \<^verbatim>\<open>
  n = len(population)
  if not 0 <= k <= n: raise ValueError("Sample larger than population or is negative")
  result = [None] * k
  pool = list(population)
  for i in range(k):
      j = randbelow(n - i)
      result[i] = pool[j]
      pool[j] = pool[n - i - 1]
  return result
  \<close>
  (For a large population CPython draws indices into the population and rejects the
  ones already drawn; the lists that can result are the same.)
\<close>

definition sample_step :: "nat \<Rightarrow> nat \<Rightarrow> 'a list \<times> 'a list \<times> rng \<Rightarrow> 'a list \<times> 'a list \<times> rng" where
  "sample_step n i st =
     (case st of
        (result, pool, g) \<Rightarrow>
          (case randbelow (n - i) g of
             (j, g') \<Rightarrow> (result @ [pool ! j], pool[j := pool ! (n - i - 1)], g')))"

definition random_sample :: "'a list \<Rightarrow> int \<Rightarrow> rng \<Rightarrow> error + ('a list \<times> rng)" where
  "random_sample population k g =
     (let n = length population in
      if \<not> (0 \<le> k \<and> k \<le> int n)
      then Inl (ValueError ''Sample larger than population or is negative'')
      else (case fold (sample_step n) [0..<nat k] ([], population, g) of
              (result, pool, g') \<Rightarrow> Inr (result, g')))"

text \<open>
  \<open>sample_questions\<close>: lines 77 to 81. The result is the returned list, the bank as the
  call leaves it and the random source after the call.
\<close>

definition capacity_message :: "int \<Rightarrow> nat \<Rightarrow> string" where
  "capacity_message n m =
     ''Requested '' @ str_int n @ '' questions but bank only has '' @ str_int (int m)"

definition sample_questions ::
  "QuestionBank \<Rightarrow> int \<Rightarrow> rng \<Rightarrow> error + (ref list \<times> QuestionBank \<times> rng)" where
  "sample_questions self n g =
     (if n > int (length (questions self))
      then Inl (ValueError (capacity_message n (length (questions self))))
      else (case random_sample (questions self) n g of
              Inl e \<Rightarrow> Inl e
            | Inr (result, g') \<Rightarrow> Inr (result, self, g')))"

subsection \<open>Class \<open>ExamGenerator\<close>\<close>

record ExamGenerator =
  banks :: "string \<rightharpoonup> QuestionBank"
  preamble_file :: "string option"

definition ExamGenerator_init :: "string option \<Rightarrow> ExamGenerator" where
  "ExamGenerator_init pf = \<lparr>banks = Map.empty, preamble_file = pf\<rparr>"

text \<open>\<open>add_bank\<close>: lines 88 to 90.\<close>

definition add_bank ::
  "files \<Rightarrow> yaml_loader \<Rightarrow> ExamGenerator \<Rightarrow> string \<Rightarrow> store \<Rightarrow> error + (ExamGenerator \<times> store)" where
  "add_bank fs safe_load self yaml_file s =
     (case QuestionBank_init fs safe_load yaml_file s of
        Inl e \<Rightarrow> Inl e
      | Inr (bank, s') \<Rightarrow> Inr (self\<lparr>banks := (banks self)(name bank \<mapsto> bank)\<rparr>, s'))"

text \<open>
  \<open>str.replace(old, new)\<close>: the occurrences of \<open>old\<close> are replaced from left to right,
  the search going on behind each replaced occurrence. (With an empty \<open>old\<close>, \<open>new\<close> is
  put before every character and at the end.)
\<close>

function replace_from :: "string \<Rightarrow> string \<Rightarrow> string \<Rightarrow> string" where
  "replace_from old new [] = []"
| "replace_from old new (c # cs) =
     (if old \<noteq> [] \<and> prefix old (c # cs)
      then new @ replace_from old new (drop (length old) (c # cs))
      else c # replace_from old new cs)"
  by pat_completeness auto
termination
  by (relation "measure (\<lambda>(old, new, s). length s)") auto

definition str_replace :: "string \<Rightarrow> string \<Rightarrow> string \<Rightarrow> string" where
  "str_replace s old new =
     (if old = [] then new @ concat (map (\<lambda>c. c # new) s) else replace_from old new s)"

definition placeholder :: string where
  "placeholder = ''%%VERSION%%''"

definition default_preamble :: "int \<Rightarrow> string" where
  "default_preamble version =
     bs # ''documentclass[addpoints,12pt,answers]{exam}'' @ [nl]
     @ bs # ''usepackage{ttfamily}'' @ [nl]
     @ bs # ''usepackage{textcomp}'' @ [nl]
     @ bs # ''pagestyle{headandfoot}'' @ [nl]
     @ bs # ''runningheader{CS Course}{Exam Version '' @ str_int version @ ''}{''
         @ bs # ''today}'' @ [nl]
     @ bs # ''runningfooter{Page '' @ bs # ''thepage'' @ bs # '' of '' @ bs # ''numpages}{}{}''
         @ [nl]
     @ [nl]
     @ bs # ''begin{document}'' @ [nl]
     @ bs # ''begin{center}'' @ [nl]
     @ bs # ''textbf{Exam}'' @ [bs, bs, nl]
     @ ''Version '' @ str_int version @ [bs, bs, nl]
     @ bs # ''today'' @ [nl]
     @ bs # ''end{center}'' @ [nl]
     @ [nl]"

definition preamble_warning :: "string \<Rightarrow> string" where
  "preamble_warning file =
     ''Warning: Preamble file '' @ file @ '' not found. Using default preamble.''"

text \<open>
  \<open>_generate_preamble\<close>: lines 113 to 140. The result is the preamble and the lines
  printed. Only \<open>FileNotFoundError\<close> is caught; an empty path counts as no path.
\<close>

definition generate_preamble ::
  "files \<Rightarrow> ExamGenerator \<Rightarrow> int \<Rightarrow> error + (string \<times> string list)" where
  "generate_preamble fs self version =
     (case preamble_file self of
        None \<Rightarrow> Inr (default_preamble version, [])
      | Some file \<Rightarrow>
          (if file = [] then Inr (default_preamble version, [])
           else (case fs file of
                   Inr preamble \<Rightarrow> Inr (str_replace preamble placeholder (str_int version), [])
                 | Inl (FileNotFoundError _) \<Rightarrow>
                     Inr (default_preamble version, [preamble_warning file])
                 | Inl e \<Rightarrow> Inl e)))"

definition not_found_message :: "string \<Rightarrow> string" where
  "not_found_message bank_name =
     ''Question bank '' @ [CHR 0x27] @ bank_name @ [CHR 0x27] @ '' not found''"

text \<open>
  The first loop of \<open>generate_exam\<close> (lines 97 to 102) over the items of
  \<open>bank_selections\<close>, a dictionary, in insertion order.
\<close>

fun sample_all ::
  "(string \<rightharpoonup> QuestionBank) \<Rightarrow> (string \<times> int) list \<Rightarrow> ref list \<Rightarrow> rng
     \<Rightarrow> error + (ref list \<times> (string \<rightharpoonup> QuestionBank) \<times> rng)" where
  "sample_all bs_map [] all_questions g = Inr (all_questions, bs_map, g)"
| "sample_all bs_map ((bank_name, num_questions) # rest) all_questions g =
     (case bs_map bank_name of
        None \<Rightarrow> Inl (ValueError (not_found_message bank_name))
      | Some bank \<Rightarrow>
          (case sample_questions bank num_questions g of
             Inl e \<Rightarrow> Inl e
           | Inr (qs, bank', g') \<Rightarrow>
               sample_all (bs_map(bank_name \<mapsto> bank')) rest (all_questions @ qs) g'))"

text \<open>The second loop (lines 106 and 107): every sampled question is rendered, shuffled.\<close>

fun render_all :: "ref list \<Rightarrow> string \<Rightarrow> store \<Rightarrow> rng \<Rightarrow> error + (string \<times> store \<times> rng)" where
  "render_all [] latex s g = Inr (latex, s, g)"
| "render_all (r # rs) latex s g =
     (case to_latex (objs s r) True g of
        Inl e \<Rightarrow> Inl e
      | Inr (l, q', g') \<Rightarrow>
          render_all rs (latex @ l @ [nl]) (s\<lparr>objs := (objs s)(r := q')\<rparr>) g')"

text \<open>
  \<open>generate_exam\<close>: lines 92 to 111. The result is the document, the lines printed, the
  generator and the store as the call leaves them, and the random source after the call.
\<close>

definition generate_exam ::
  "files \<Rightarrow> ExamGenerator \<Rightarrow> (string \<times> int) list \<Rightarrow> int \<Rightarrow> store \<Rightarrow> rng
     \<Rightarrow> error + (string \<times> string list \<times> ExamGenerator \<times> store \<times> rng)" where
  "generate_exam fs self bank_selections version s g =
     (case generate_preamble fs self version of
        Inl e \<Rightarrow> Inl e
      | Inr (latex, printed) \<Rightarrow>
     (case sample_all (banks self) bank_selections [] g of
        Inl e \<Rightarrow> Inl e
      | Inr (all_questions, banks', g1) \<Rightarrow>
     (case render_all all_questions (latex @ bs # ''begin{questions}'' @ [nl]) s g1 of
        Inl e \<Rightarrow> Inl e
      | Inr (latex', s', g2) \<Rightarrow>
          Inr (latex' @ bs # ''end{questions}'' @ [nl] @ bs # ''end{document}'',
               printed, self\<lparr>banks := banks'\<rparr>, s', g2))))"

subsection \<open>Notions used in the statements\<close>

text \<open>
  The class invariant of the shuffle cache: it is empty or a permutation of
  \<open>range(len(choices))\<close>. A constructed question has an empty cache, and the two methods
  that write the cache keep the invariant.
\<close>

definition cache_ok :: "Question \<Rightarrow> bool" where
  "cache_ok q =
     (case shuffled_indices q of
        None \<Rightarrow> True
      | Some ixs \<Rightarrow> mset ixs = mset [0..<length (choices q)])"

text \<open>
  The two methods that touch the shuffle cache. In a sequence of calls every call comes
  with the state of the random source at that moment, since other code may have drawn
  from it in between.
\<close>

datatype call = ShuffleChoices | GetShuffledChoices

fun do_call :: "call \<Rightarrow> rng \<Rightarrow> Question \<Rightarrow> error + Question" where
  "do_call ShuffleChoices g q = Inr (fst (shuffle_choices q g))"
| "do_call GetShuffledChoices g q =
     (case get_shuffled_choices q g of Inl e \<Rightarrow> Inl e | Inr (r, q', g') \<Rightarrow> Inr q')"

fun run_calls :: "(call \<times> rng) list \<Rightarrow> Question \<Rightarrow> error + Question" where
  "run_calls [] q = Inr q"
| "run_calls ((c, g) # cs) q =
     (case do_call c g q of Inl e \<Rightarrow> Inl e | Inr q' \<Rightarrow> run_calls cs q')"

text \<open>The results of consecutive calls of \<open>get_shuffled_choices\<close> on one object.\<close>

fun repeated_calls :: "rng list \<Rightarrow> Question \<Rightarrow> error + (string list \<times> answers) list" where
  "repeated_calls [] q = Inr []"
| "repeated_calls (g # gs) q =
     (case get_shuffled_choices q g of
        Inl e \<Rightarrow> Inl e
      | Inr (r, q', g') \<Rightarrow>
          (case repeated_calls gs q' of Inl e \<Rightarrow> Inl e | Inr rs \<Rightarrow> Inr (r # rs)))"

text \<open>
  The lines of a text: the pieces that a newline character ends, and what follows the
  last newline character when that is not empty.
\<close>

fun text_lines :: "string \<Rightarrow> string list" where
  "text_lines [] = []"
| "text_lines (c # cs) =
     (if c = CHR 0x0A then [] # text_lines cs
      else (case text_lines cs of [] \<Rightarrow> [[c]] | l # ls \<Rightarrow> (c # l) # ls))"

text \<open>
  The pieces \<open>ps\<close> with the separator between them, \<open>sep.join(ps)\<close> in Python: the
  notion in which the result of a replacement is stated.
\<close>

fun joined :: "string \<Rightarrow> string list \<Rightarrow> string" where
  "joined sep [] = []"
| "joined sep [p] = p"
| "joined sep (p # q # ps) = p @ sep @ joined sep (q # ps)"

text \<open>
  The bank files with a required field absent: no \<open>name\<close>, no \<open>questions\<close>, or a
  question without \<open>text\<close>, \<open>type\<close>, \<open>choices\<close> or \<open>correct_answers\<close>.
\<close>

definition question_incomplete :: "question_dict \<Rightarrow> bool" where
  "question_incomplete d \<longleftrightarrow>
     text_key d = None \<or> type_key d = None \<or> choices_key d = None
     \<or> correct_answers_key d = None"

definition bank_incomplete :: "bank_dict \<Rightarrow> bool" where
  "bank_incomplete data \<longleftrightarrow>
     name_key data = None
     \<or> (case questions_key data of
           None \<Rightarrow> True
         | Some ds \<Rightarrow> list_ex question_incomplete ds)"

definition required_keys :: "string list" where
  "required_keys = [''name'', ''questions'', ''text'', ''type'', ''choices'', ''correct_answers'']"

subsection \<open>Example objects\<close>

text \<open>The question of the end-to-end scenario: choices A, B, C, correct answer B.\<close>

definition q_abc :: Question where
  "q_abc = \<lparr>text = ''Pick one'', points = 1, type = ''multiple_choice'',
            choices = [''A'', ''B'', ''C''], correct_answers = Single ''B'',
            id_attr = [], shuffled_indices = None\<rparr>"

text \<open>
  A question with a single correct answer and distinct choices, one of which holds a
  newline character followed by the marker of a correct choice.
\<close>

definition q_nl :: Question where
  "q_nl = \<lparr>text = ''Pick one'', points = 1, type = ''multiple_choice'',
           choices = [''A'' @ [CHR 0x0A, CHR 0x5C] @ ''correctchoice Z'', ''B''],
           correct_answers = Single ''B'', id_attr = [], shuffled_indices = None\<rparr>"

text \<open>A question whose choices repeat a string, with a list of correct answers.\<close>

definition q_dup :: Question where
  "q_dup = \<lparr>text = ''Pick all'', points = 2, type = ''multiple_selection'',
            choices = [''A'', ''B'', ''A'', ''C''], correct_answers = Multi [''A'', ''C''],
            id_attr = ''q2'', shuffled_indices = None\<rparr>"

text \<open>Questions whose type tag disagrees with the shape of \<open>correct_answers\<close>.\<close>

definition q_tag_choice_list :: Question where
  "q_tag_choice_list = \<lparr>text = ''T'', points = 1, type = ''multiple_choice'',
            choices = [''A'', ''B''], correct_answers = Multi [''A'', ''B''],
            id_attr = [], shuffled_indices = None\<rparr>"

definition q_tag_selection_single :: Question where
  "q_tag_selection_single = \<lparr>text = ''T'', points = 1, type = ''multiple_selection'',
            choices = [''A'', ''B''], correct_answers = Single ''A'',
            id_attr = [], shuffled_indices = None\<rparr>"

text \<open>
  A bank of three questions at the addresses 0, 1 and 2, a bank of two questions at the
  addresses 3 and 4, a generator without a preamble file that has loaded both banks, and
  a store that holds the question \<open>q_abc\<close> at every address.
\<close>

definition bank3 :: QuestionBank where
  "bank3 = \<lparr>name = ''midterm'', questions = [0, 1, 2]\<rparr>"

definition bank2 :: QuestionBank where
  "bank2 = \<lparr>name = ''final'', questions = [3, 4]\<rparr>"

definition gen_two :: ExamGenerator where
  "gen_two = \<lparr>banks = [''midterm'' \<mapsto> bank3, ''final'' \<mapsto> bank2], preamble_file = None\<rparr>"

definition store_abc :: store where
  "store_abc = \<lparr>objs = (\<lambda>r. q_abc), next_ref = 5\<rparr>"

text \<open>
  File systems: one without files, one with a preamble template that holds the
  placeholder twice (and the generator configured with it), one with a bank file.
\<close>

definition fs_none :: files where
  "fs_none path = Inl (FileNotFoundError path)"

definition fs_template :: files where
  "fs_template path =
     (if path = ''pre.tex'' then Inr ''V%%VERSION%% v%%VERSION%%!''
      else Inl (FileNotFoundError path))"

definition gen_template :: ExamGenerator where
  "gen_template = ExamGenerator_init (Some ''pre.tex'')"

definition fs_bank :: files where
  "fs_bank path =
     (if path = ''bank.yaml'' then Inr ''name: midterm'' else Inl (FileNotFoundError path))"

text \<open>
  Three ways the bank file may parse: with the key \<open>questions\<close> absent, with a question
  without \<open>type\<close>, and not at all.
\<close>

definition load_no_questions :: yaml_loader where
  "load_no_questions f = Inr \<lparr>name_key = Some ''midterm'', questions_key = None\<rparr>"

definition load_no_type :: yaml_loader where
  "load_no_type f =
     Inr \<lparr>name_key = Some ''midterm'',
          questions_key = Some
            [\<lparr>text_key = Some ''Pick one'', points_key = None, type_key = None,
              choices_key = Some [''A'', ''B''], correct_answers_key = Some (Single ''A''),
              id_key = None\<rparr>]\<rparr>"

definition load_unparsable :: yaml_loader where
  "load_unparsable f = Inl YAMLError"

text \<open>The rendering of \<open>q_nl\<close> without shuffling.\<close>

definition rendering_nl :: string where
  "rendering_nl =
     CHR 0x5C # ''question[1] Pick one'' @ [CHR 0x0A]
     @ CHR 0x5C # ''begin{choices}'' @ [CHR 0x0A]
     @ CHR 0x5C # ''choice A'' @ [CHR 0x0A]
     @ CHR 0x5C # ''correctchoice Z'' @ [CHR 0x0A]
     @ CHR 0x5C # ''correctchoice B'' @ [CHR 0x0A]
     @ CHR 0x5C # ''end{choices}'' @ [CHR 0x0A]"

section \<open>Properties\<close>

subsection \<open>Shuffling\<close>

lemma randbelow_less: "0 < n \<Longrightarrow> fst (randbelow n g) < n"
  by (cases g) simp_all

lemma shuffle_from_mset:
  "k < length x \<Longrightarrow> mset (fst (shuffle_from k x g)) = mset x"
proof (induction k arbitrary: x g)
  case 0
  then show ?case by simp
next
  case (Suc k)
  obtain j g' where r: "randbelow (Suc k + 1) g = (j, g')"
    by (cases "randbelow (Suc k + 1) g")
  have "fst (randbelow (Suc k + 1) g) < Suc k + 1"
    by (rule randbelow_less) simp
  with r Suc.prems have j: "j < length x" by simp
  let ?y = "x[Suc k := x ! j, j := x ! Suc k]"
  have "mset (fst (shuffle_from k ?y g')) = mset ?y"
    using Suc.prems by (intro Suc.IH) simp
  also have "mset ?y = mset x"
    using Suc.prems j by (simp add: mset_swap)
  finally show ?case using r by simp
qed

lemma random_shuffle_mset: "mset (fst (random_shuffle x g)) = mset x"
proof (cases x)
  case Nil
  then show ?thesis by (simp add: random_shuffle_def)
next
  case (Cons a as)
  then show ?thesis
    unfolding random_shuffle_def by (intro shuffle_from_mset) simp
qed

lemma getitems_Inr:
  "\<forall>i \<in> set ixs. i < length xs \<Longrightarrow> getitems xs ixs = Inr (map ((!) xs) ixs)"
  by (induction ixs) simp_all

lemma mset_map_nth_perm:
  assumes "mset ixs = mset [0..<length xs]"
  shows "mset (map ((!) xs) ixs) = mset xs"
proof -
  have "mset (map ((!) xs) ixs) = image_mset ((!) xs) (mset ixs)" by simp
  also have "\<dots> = image_mset ((!) xs) (mset [0..<length xs])" using assms by simp
  also have "\<dots> = mset (map ((!) xs) [0..<length xs])" by simp
  also have "\<dots> = mset xs" by (simp add: map_nth)
  finally show ?thesis .
qed

lemma perm_in_range:
  assumes "mset ixs = mset [0..<n]"
  shows "\<forall>i \<in> set ixs. i < n"
proof -
  have "set ixs = set [0..<n]" using assms by (rule mset_eq_setD)
  then show ?thesis by simp
qed

lemma shuffle_choices_cache:
  "shuffled_indices (fst (shuffle_choices q g)) = Some (fst (random_shuffle [0..<length (choices q)] g))"
  by (simp add: shuffle_choices_def split: prod.splits)

lemma shuffle_choices_fields:
  "choices (fst (shuffle_choices q g)) = choices q"
  "correct_answers (fst (shuffle_choices q g)) = correct_answers q"
  by (simp_all add: shuffle_choices_def split: prod.splits)

lemma shuffle_choices_cache_ok: "cache_ok (fst (shuffle_choices q g))"
  by (simp add: cache_ok_def shuffle_choices_cache shuffle_choices_fields random_shuffle_mset)

text \<open>What a call returns on an object whose cache is filled with a permutation.\<close>

lemma get_shuffled_choices_cached:
  assumes "shuffled_indices q = Some ixs" and "mset ixs = mset [0..<length (choices q)]"
  shows "get_shuffled_choices q g =
           Inr ((map ((!) (choices q)) ixs,
                 (case correct_answers q of
                    Multi cas \<Rightarrow> Multi (filter (\<lambda>c. c \<in> set cas) (map ((!) (choices q)) ixs))
                  | Single ca \<Rightarrow> Single ca)),
                q, g)"
proof -
  have "getitems (choices q) ixs = Inr (map ((!) (choices q)) ixs)"
    using perm_in_range [OF assms(2)] by (rule getitems_Inr)
  then show ?thesis
    using assms(1) by (simp add: get_shuffled_choices_def split: answers.splits)
qed

text \<open>A call on an object with an empty cache is a call after \<open>shuffle_choices\<close>.\<close>

lemma get_shuffled_choices_fresh:
  assumes "shuffled_indices q = None"
  shows "get_shuffled_choices q g =
           get_shuffled_choices (fst (shuffle_choices q g)) (snd (shuffle_choices q g))"
  using assms
  by (simp add: get_shuffled_choices_def shuffle_choices_cache split: prod.splits)

lemma repeated_calls_cached:
  assumes "shuffled_indices q = Some ixs" and "mset ixs = mset [0..<length (choices q)]"
    and "get_shuffled_choices q g0 = Inr (r, q', g')"
  shows "repeated_calls gs q = Inr (replicate (length gs) r)"
proof (induction gs)
  case Nil
  then show ?case by simp
next
  case (Cons g gs)
  have "get_shuffled_choices q g0 = Inr (r, q, g0)"
    using get_shuffled_choices_cached [OF assms(1,2), of g0] assms(3) by simp
  moreover have "get_shuffled_choices q g = Inr (fst (projr (get_shuffled_choices q g0)), q, g)"
    using get_shuffled_choices_cached [OF assms(1,2)] by simp
  ultimately have "get_shuffled_choices q g = Inr (r, q, g)" by simp
  then show ?case using Cons.IH by simp
qed

subsection \<open>C1: the shuffled choices are a permutation, and the cache makes calls repeatable\<close>

text \<open>
  Claim C1. For every question (with the cache invariant, which every constructed object
  has and every method keeps), \<open>get_shuffled_choices\<close> returns, and the choices it
  returns are a permutation of the original choices: the same multiset. Every further
  call on the object as the first call left it, whatever the state of the random source,
  returns the pair the first call returned and leaves the object as it is; so the results
  of any number of repeated calls all equal the first result.
\<close>

theorem get_shuffled_choices_permutation_stable:
  assumes "cache_ok q"
  shows "\<exists>cs ca q' g'.
           get_shuffled_choices q g = Inr ((cs, ca), q', g')
         \<and> mset cs = mset (choices q)
         \<and> (\<forall>g2. get_shuffled_choices q' g2 = Inr ((cs, ca), q', g2))
         \<and> (\<forall>gs. repeated_calls gs q' = Inr (replicate (length gs) (cs, ca)))"
proof -
  define q1 where "q1 = (if shuffled_indices q = None then fst (shuffle_choices q g) else q)"
  define g1 where "g1 = (if shuffled_indices q = None then snd (shuffle_choices q g) else g)"
  have ok1: "cache_ok q1"
    using assms by (simp add: q1_def shuffle_choices_cache_ok)
  have some1: "shuffled_indices q1 \<noteq> None"
    by (simp add: q1_def shuffle_choices_cache)
  then obtain ixs where ixs: "shuffled_indices q1 = Some ixs" by auto
  have perm: "mset ixs = mset [0..<length (choices q1)]"
    using ok1 ixs by (simp add: cache_ok_def)
  have ch: "choices q1 = choices q"
    by (simp add: q1_def shuffle_choices_fields)
  have first: "get_shuffled_choices q g = get_shuffled_choices q1 g1"
  proof (cases "shuffled_indices q = None")
    case True
    then show ?thesis
      using get_shuffled_choices_fresh [OF True, of g] by (simp add: q1_def g1_def)
  next
    case False
    then show ?thesis by (auto simp: q1_def g1_def)
  qed
  let ?cs = "map ((!) (choices q1)) ixs"
  let ?ca = "case correct_answers q1 of
               Multi cas \<Rightarrow> Multi (filter (\<lambda>c. c \<in> set cas) ?cs)
             | Single ca \<Rightarrow> Single ca"
  have res: "get_shuffled_choices q1 g2 = Inr ((?cs, ?ca), q1, g2)" for g2
    by (rule get_shuffled_choices_cached [OF ixs perm])
  have "mset ?cs = mset (choices q)"
    using mset_map_nth_perm [OF perm] ch by simp
  moreover have "repeated_calls gs q1 = Inr (replicate (length gs) (?cs, ?ca))" for gs
    by (rule repeated_calls_cached [OF ixs perm res [of g1]])
  ultimately show ?thesis
    using first res by auto
qed

theorem get_shuffled_choices_permutation_stable_witness:
  "cache_ok q_abc
   \<and> choices q_abc \<noteq> []
   \<and> (\<exists>cs ca q' g'.
         get_shuffled_choices q_abc [0, 0] = Inr ((cs, ca), q', g')
       \<and> mset cs = mset (choices q_abc)
       \<and> (\<forall>g2. get_shuffled_choices q' g2 = Inr ((cs, ca), q', g2))
       \<and> (\<forall>gs. repeated_calls gs q' = Inr (replicate (length gs) (cs, ca))))"
proof -
  have ok: "cache_ok q_abc" by (simp add: cache_ok_def q_abc_def)
  have "choices q_abc \<noteq> []" by (simp add: q_abc_def)
  with ok get_shuffled_choices_permutation_stable [OF ok, of "[0, 0]"] show ?thesis
    by blast
qed

subsection \<open>The shape of the results of \<open>get_shuffled_choices\<close> and \<open>to_latex\<close>\<close>

lemma get_shuffled_choices_shape:
  assumes "cache_ok q"
  shows "\<exists>ixs g'. mset ixs = mset [0..<length (choices q)]
           \<and> get_shuffled_choices q g =
               Inr ((map ((!) (choices q)) ixs,
                     (case correct_answers q of
                        Multi cas \<Rightarrow> Multi (filter (\<lambda>c. c \<in> set cas) (map ((!) (choices q)) ixs))
                      | Single ca \<Rightarrow> Single ca)),
                    q\<lparr>shuffled_indices := Some ixs\<rparr>, g')"
proof (cases "shuffled_indices q")
  case None
  define ixs where "ixs = fst (random_shuffle [0..<length (choices q)] g)"
  define g' where "g' = snd (random_shuffle [0..<length (choices q)] g)"
  define q1 where "q1 = q\<lparr>shuffled_indices := Some ixs\<rparr>"
  have sh: "shuffle_choices q g = (q1, g')"
    by (simp add: shuffle_choices_def ixs_def g'_def q1_def split: prod.splits)
  have perm: "mset ixs = mset [0..<length (choices q)]"
    by (simp add: ixs_def random_shuffle_mset)
  have "get_shuffled_choices q g = get_shuffled_choices q1 g'"
    using get_shuffled_choices_fresh [OF None, of g] sh by simp
  moreover have "shuffled_indices q1 = Some ixs" "choices q1 = choices q"
    "correct_answers q1 = correct_answers q"
    by (simp_all add: q1_def)
  ultimately have "get_shuffled_choices q g =
      Inr ((map ((!) (choices q)) ixs,
            (case correct_answers q of
               Multi cas \<Rightarrow> Multi (filter (\<lambda>c. c \<in> set cas) (map ((!) (choices q)) ixs))
             | Single ca \<Rightarrow> Single ca)),
           q1, g')"
    using get_shuffled_choices_cached [of q1 ixs g'] perm
    by (cases "correct_answers q") simp_all
  with perm show ?thesis unfolding q1_def by blast
next
  case (Some ixs)
  have perm: "mset ixs = mset [0..<length (choices q)]"
    using assms Some by (simp add: cache_ok_def)
  have "q\<lparr>shuffled_indices := Some ixs\<rparr> = q" using Some by simp
  with get_shuffled_choices_cached [OF Some perm, of g] perm show ?thesis by auto
qed

lemma fold_append_lines:
  "fold (\<lambda>choice latex. latex @ f choice) cs l = l @ concat (map f cs)"
  by (induction cs arbitrary: l) simp_all

lemma choice_line_filtered:
  "c \<in> set cs \<Longrightarrow>
   choice_line (Multi (filter (\<lambda>c. c \<in> set cas) cs)) c = choice_line (Multi cas) c"
  by (simp add: choice_line_def)

lemma to_latex_unshuffled:
  "to_latex q False g =
     Inr (question_header q @ concat (map (choice_line (correct_answers q)) (choices q))
            @ choices_end, q, g)"
  by (simp add: to_latex_def fold_append_lines)

lemma to_latex_shuffled:
  assumes "cache_ok q"
  shows "\<exists>ixs g'. mset ixs = mset [0..<length (choices q)]
           \<and> to_latex q True g =
               Inr (question_header q
                      @ concat (map (choice_line (correct_answers q)) (map ((!) (choices q)) ixs))
                      @ choices_end,
                    q\<lparr>shuffled_indices := Some ixs\<rparr>, g')"
proof -
  obtain ixs g' where perm: "mset ixs = mset [0..<length (choices q)]"
    and r: "get_shuffled_choices q g =
               Inr ((map ((!) (choices q)) ixs,
                     (case correct_answers q of
                        Multi cas \<Rightarrow> Multi (filter (\<lambda>c. c \<in> set cas) (map ((!) (choices q)) ixs))
                      | Single ca \<Rightarrow> Single ca)),
                    q\<lparr>shuffled_indices := Some ixs\<rparr>, g')"
    using get_shuffled_choices_shape [OF assms, of g] by blast
  let ?cs = "map ((!) (choices q)) ixs"
  have lines: "map (choice_line (case correct_answers q of
                        Multi cas \<Rightarrow> Multi (filter (\<lambda>c. c \<in> set cas) ?cs)
                      | Single ca \<Rightarrow> Single ca)) ?cs
             = map (choice_line (correct_answers q)) ?cs"
  proof (cases "correct_answers q")
    case (Single ca)
    then show ?thesis by simp
  next
    case (Multi cas)
    have "map (choice_line (Multi (filter (\<lambda>c. c \<in> set cas) ?cs))) ?cs
            = map (choice_line (Multi cas)) ?cs"
      by (rule map_cong [OF refl]) (rule choice_line_filtered)
    with Multi show ?thesis by simp
  qed
  have "to_latex q True g =
          Inr (question_header q
                 @ concat (map (choice_line (case correct_answers q of
                        Multi cas \<Rightarrow> Multi (filter (\<lambda>c. c \<in> set cas) ?cs)
                      | Single ca \<Rightarrow> Single ca)) ?cs) @ choices_end,
               q\<lparr>shuffled_indices := Some ixs\<rparr>, g')"
    using r by (simp add: to_latex_def fold_append_lines)
  then have "to_latex q True g =
          Inr (question_header q
                 @ concat (map (choice_line (correct_answers q)) ?cs) @ choices_end,
               q\<lparr>shuffled_indices := Some ixs\<rparr>, g')"
    unfolding lines .
  with perm show ?thesis by blast
qed

subsection \<open>C6: the correct answers of a question with a list of answers\<close>

text \<open>
  Claim C6. For every question whose correct answers are a list (the multi-correct case),
  \<open>get_shuffled_choices\<close> returns a list of correct answers that, as a set, is the
  intersection of the listed correct answers with the choices; it is the subsequence of
  the returned shuffled choices made of the choices that are listed, in the order of the
  shuffled choices; and it holds every occurrence of a listed value, as often as the
  choices hold it.
\<close>

theorem multi_correct_answers_follow_shuffle:
  assumes "cache_ok q" and "correct_answers q = Multi cas"
  shows "\<exists>cs sc q' g'.
           get_shuffled_choices q g = Inr ((cs, Multi sc), q', g')
         \<and> set sc = set cas \<inter> set (choices q)
         \<and> sc = filter (\<lambda>c. c \<in> set cas) cs
         \<and> subseq sc cs
         \<and> mset sc = filter_mset (\<lambda>c. c \<in> set cas) (mset (choices q))"
proof -
  obtain ixs g' where perm: "mset ixs = mset [0..<length (choices q)]"
    and r: "get_shuffled_choices q g =
               Inr ((map ((!) (choices q)) ixs,
                     Multi (filter (\<lambda>c. c \<in> set cas) (map ((!) (choices q)) ixs))),
                    q\<lparr>shuffled_indices := Some ixs\<rparr>, g')"
    using get_shuffled_choices_shape [OF assms(1), of g] assms(2) by auto
  let ?cs = "map ((!) (choices q)) ixs"
  let ?sc = "filter (\<lambda>c. c \<in> set cas) ?cs"
  have m: "mset ?cs = mset (choices q)"
    by (rule mset_map_nth_perm [OF perm])
  then have s: "set ?cs = set (choices q)"
    by (rule mset_eq_setD)
  have "set ?sc = set cas \<inter> set (choices q)"
    using s by auto
  moreover have "subseq ?sc ?cs" by simp
  moreover have "mset ?sc = filter_mset (\<lambda>c. c \<in> set cas) (mset (choices q))"
    using m by (metis mset_filter)
  ultimately show ?thesis using r by blast
qed

theorem multi_correct_answers_follow_shuffle_witness:
  "cache_ok q_dup \<and> correct_answers q_dup = Multi [''A'', ''C'']
   \<and> (\<exists>cs sc q' g'.
         get_shuffled_choices q_dup [1, 0, 0] = Inr ((cs, Multi sc), q', g')
       \<and> set sc = set [''A'', ''C''] \<inter> set (choices q_dup)
       \<and> sc = filter (\<lambda>c. c \<in> set [''A'', ''C'']) cs
       \<and> subseq sc cs
       \<and> mset sc = filter_mset (\<lambda>c. c \<in> set [''A'', ''C'']) (mset (choices q_dup)))"
proof -
  have ok: "cache_ok q_dup" by (simp add: cache_ok_def q_dup_def)
  have ca: "correct_answers q_dup = Multi [''A'', ''C'']" by (simp add: q_dup_def)
  from multi_correct_answers_follow_shuffle [OF ok ca, of "[1, 0, 0]"] ok ca
  show ?thesis by blast
qed

subsection \<open>C7: the states of the shuffle cache\<close>

lemma do_call_keeps_cache:
  assumes "cache_ok q"
  shows "\<exists>q'. do_call c g q = Inr q' \<and> cache_ok q' \<and> shuffled_indices q' \<noteq> None"
proof (cases c)
  case ShuffleChoices
  then show ?thesis
    by (simp add: shuffle_choices_cache_ok shuffle_choices_cache)
next
  case GetShuffledChoices
  obtain ixs g' where perm: "mset ixs = mset [0..<length (choices q)]"
    and r: "get_shuffled_choices q g =
               Inr ((map ((!) (choices q)) ixs,
                     (case correct_answers q of
                        Multi cas \<Rightarrow> Multi (filter (\<lambda>c. c \<in> set cas) (map ((!) (choices q)) ixs))
                      | Single ca \<Rightarrow> Single ca)),
                    q\<lparr>shuffled_indices := Some ixs\<rparr>, g')"
    using get_shuffled_choices_shape [OF assms, of g] by blast
  have "cache_ok (q\<lparr>shuffled_indices := Some ixs\<rparr>)"
    using perm by (simp add: cache_ok_def)
  with r GetShuffledChoices show ?thesis by simp
qed

lemma run_calls_keeps_cache:
  assumes "cache_ok q" and "shuffled_indices q \<noteq> None"
  shows "\<exists>q'. run_calls calls q = Inr q' \<and> cache_ok q' \<and> shuffled_indices q' \<noteq> None"
  using assms
proof (induction calls arbitrary: q)
  case Nil
  then show ?case by simp
next
  case (Cons a calls)
  obtain c g where a: "a = (c, g)" by (cases a)
  obtain q1 where q1: "do_call c g q = Inr q1" "cache_ok q1" "shuffled_indices q1 \<noteq> None"
    using do_call_keeps_cache [OF Cons.prems(1), of c g] by blast
  from Cons.IH [OF q1(2,3)] q1(1) a show ?case by simp
qed

lemma get_call_on_filled_cache:
  assumes "cache_ok q" and "shuffled_indices q \<noteq> None"
  shows "do_call GetShuffledChoices g q = Inr q"
proof -
  obtain ixs where ixs: "shuffled_indices q = Some ixs" using assms(2) by auto
  have perm: "mset ixs = mset [0..<length (choices q)]"
    using assms(1) ixs by (simp add: cache_ok_def)
  show ?thesis
    using get_shuffled_choices_cached [OF ixs perm, of g] by simp
qed

lemma get_calls_on_filled_cache:
  assumes "cache_ok q" and "shuffled_indices q \<noteq> None"
    and "list_all (\<lambda>(c, g). c = GetShuffledChoices) calls"
  shows "run_calls calls q = Inr q"
  using assms(3)
proof (induction calls)
  case Nil
  then show ?case by simp
next
  case (Cons a calls)
  obtain c g where a: "a = (c, g)" by (cases a)
  with Cons.prems have c: "c = GetShuffledChoices"
    and rest: "list_all (\<lambda>(c, g). c = GetShuffledChoices) calls"
    by simp_all
  have "do_call c g q = Inr q"
    unfolding c by (rule get_call_on_filled_cache [OF assms(1,2)])
  with Cons.IH [OF rest] a show ?case by simp
qed

text \<open>
  Claim C7, as the code has it. A question starts with an empty cache. The first call of
  \<open>shuffle_choices\<close> or of \<open>get_shuffled_choices\<close> fills the cache; after that, whatever
  calls of the two methods follow, the cache is never empty again; and under calls of
  \<open>get_shuffled_choices\<close> alone the object, and so the stored permutation, does not
  change. A later call of \<open>shuffle_choices\<close> itself stores the permutation it draws
  then.
\<close>

theorem shuffle_cache_filled_once:
  assumes "shuffled_indices q = None"
  shows "\<exists>q1. do_call c g q = Inr q1 \<and> shuffled_indices q1 \<noteq> None
           \<and> (\<forall>calls. \<exists>q2. run_calls calls q1 = Inr q2 \<and> shuffled_indices q2 \<noteq> None)
           \<and> (\<forall>calls. list_all (\<lambda>(c', g'). c' = GetShuffledChoices) calls
                  \<longrightarrow> run_calls calls q1 = Inr q1)
           \<and> (\<forall>g'. \<exists>q3. do_call ShuffleChoices g' q1 = Inr q3
                  \<and> shuffled_indices q3 =
                      Some (fst (random_shuffle [0..<length (choices q)] g')))"
proof -
  have ok: "cache_ok q" using assms by (simp add: cache_ok_def)
  obtain q1 where q1: "do_call c g q = Inr q1" "cache_ok q1" "shuffled_indices q1 \<noteq> None"
    using do_call_keeps_cache [OF ok, of c g] by blast
  have ch: "choices q1 = choices q"
  proof (cases c)
    case ShuffleChoices
    with q1(1) show ?thesis by (auto simp: shuffle_choices_fields)
  next
    case GetShuffledChoices
    obtain ixs g' where "get_shuffled_choices q g =
               Inr ((map ((!) (choices q)) ixs,
                     (case correct_answers q of
                        Multi cas \<Rightarrow> Multi (filter (\<lambda>c. c \<in> set cas) (map ((!) (choices q)) ixs))
                      | Single ca \<Rightarrow> Single ca)),
                    q\<lparr>shuffled_indices := Some ixs\<rparr>, g')"
      using get_shuffled_choices_shape [OF ok, of g] by blast
    with q1(1) GetShuffledChoices show ?thesis by auto
  qed
  have "\<exists>q2. run_calls calls q1 = Inr q2 \<and> shuffled_indices q2 \<noteq> None" for calls
    using run_calls_keeps_cache [OF q1(2,3), of calls] by blast
  moreover have "list_all (\<lambda>(c', g'). c' = GetShuffledChoices) calls
                  \<longrightarrow> run_calls calls q1 = Inr q1" for calls
    using get_calls_on_filled_cache [OF q1(2,3), of calls] by blast
  moreover have "\<exists>q3. do_call ShuffleChoices g' q1 = Inr q3
                  \<and> shuffled_indices q3 =
                      Some (fst (random_shuffle [0..<length (choices q)] g'))" for g'
    by (simp add: shuffle_choices_cache ch)
  ultimately show ?thesis using q1(1,3) by blast
qed

theorem shuffle_cache_filled_once_witness:
  "shuffled_indices q_abc = None
   \<and> (\<exists>q1. do_call GetShuffledChoices [0, 0] q_abc = Inr q1 \<and> shuffled_indices q1 \<noteq> None
           \<and> (\<forall>calls. \<exists>q2. run_calls calls q1 = Inr q2 \<and> shuffled_indices q2 \<noteq> None)
           \<and> (\<forall>calls. list_all (\<lambda>(c', g'). c' = GetShuffledChoices) calls
                  \<longrightarrow> run_calls calls q1 = Inr q1)
           \<and> (\<forall>g'. \<exists>q3. do_call ShuffleChoices g' q1 = Inr q3
                  \<and> shuffled_indices q3 =
                      Some (fst (random_shuffle [0..<length (choices q_abc)] g'))))"
proof -
  have e: "shuffled_indices q_abc = None" by (simp add: q_abc_def)
  note main = shuffle_cache_filled_once [OF e, of GetShuffledChoices "[0, 0]"]
  show ?thesis by (intro conjI e main)
qed

text \<open>
  The claim as the specification states it fails: a second call of \<open>shuffle_choices\<close>
  replaces the stored permutation. On the question with three choices, the first call
  (the random source answering 2 and 1) stores the identity, the second call (the random
  source answering 0 and 0) stores another permutation.
\<close>

theorem shuffle_cache_overwritten_counterexample:
  "run_calls [(ShuffleChoices, [2, 1])] q_abc
     = Inr (q_abc\<lparr>shuffled_indices := Some [0, 1, 2]\<rparr>)
   \<and> run_calls [(ShuffleChoices, [2, 1]), (ShuffleChoices, [0, 0])] q_abc
     = Inr (q_abc\<lparr>shuffled_indices := Some [1, 2, 0]\<rparr>)"
  by code_simp

subsection \<open>Sampling without replacement\<close>

lemma take_replace_mset:
  assumes "m < length pool" and "j \<le> m"
  shows "add_mset (pool ! j) (mset (take m (pool[j := pool ! m]))) = mset (take (Suc m) pool)"
proof (cases "j = m")
  case True
  then show ?thesis
    using assms(1) by (simp add: take_Suc_conv_app_nth)
next
  case False
  with assms(2) have jm: "j < m" by simp
  have jt: "j < length (take m pool)" using jm assms(1) by simp
  have nth: "take m pool ! j = pool ! j" using jm by simp
  have mem: "pool ! j \<in># mset (take m pool)"
    using nth_mem [OF jt] nth by simp
  have "mset (take m (pool[j := pool ! m])) = mset ((take m pool)[j := pool ! m])"
    by (simp add: take_update_swap)
  also have "\<dots> = add_mset (pool ! m) (mset (take m pool) - {#pool ! j#})"
    using mset_update [OF jt, of "pool ! m"] nth by simp
  finally have "add_mset (pool ! j) (mset (take m (pool[j := pool ! m])))
      = add_mset (pool ! m) (add_mset (pool ! j) (mset (take m pool) - {#pool ! j#}))"
    by simp
  also have "\<dots> = add_mset (pool ! m) (mset (take m pool))"
    using mem by simp
  also have "\<dots> = mset (take (Suc m) pool)"
    using assms(1) by (simp add: take_Suc_conv_app_nth)
  finally show ?thesis .
qed

text \<open>
  The invariant of the loop of \<open>random.sample\<close>: after \<open>k\<close> rounds the result has \<open>k\<close>
  elements, and together with the first \<open>n - k\<close> cells of the pool it holds exactly the
  population.
\<close>

lemma sample_fold_invariant:
  assumes "k \<le> length population"
  shows "\<exists>res pool g'.
           fold (sample_step (length population)) [0..<k] ([], population, g) = (res, pool, g')
         \<and> length res = k \<and> length pool = length population
         \<and> mset res + mset (take (length population - k) pool) = mset population"
  using assms
proof (induction k)
  case 0
  then show ?case by simp
next
  case (Suc k)
  let ?n = "length population"
  from Suc obtain res pool g1 where
    st: "fold (sample_step ?n) [0..<k] ([], population, g) = (res, pool, g1)"
    and lr: "length res = k" and lp: "length pool = ?n"
    and ms: "mset res + mset (take (?n - k) pool) = mset population"
    by auto
  obtain j g2 where rb: "randbelow (?n - k) g1 = (j, g2)"
    by (cases "randbelow (?n - k) g1")
  have "fst (randbelow (?n - k) g1) < ?n - k"
    using Suc.prems by (intro randbelow_less) simp
  with rb have j: "j < ?n - k" by simp
  define m where "m = ?n - Suc k"
  have m: "?n - k = Suc m" "?n - k - 1 = m" "m < length pool" "j \<le> m"
    using Suc.prems j lp by (simp_all add: m_def)
  have step: "fold (sample_step ?n) [0..<Suc k] ([], population, g)
                = (res @ [pool ! j], pool[j := pool ! m], g2)"
    using st rb m(2) by (simp add: sample_step_def)
  have "mset (res @ [pool ! j]) + mset (take m (pool[j := pool ! m]))
          = mset res + add_mset (pool ! j) (mset (take m (pool[j := pool ! m])))"
    by simp
  also have "\<dots> = mset res + mset (take (Suc m) pool)"
    using take_replace_mset [OF m(3,4)] by simp
  also have "\<dots> = mset population"
    using ms m(1) by simp
  finally have "mset (res @ [pool ! j]) + mset (take (?n - Suc k) (pool[j := pool ! m]))
                  = mset population"
    by (simp add: m_def)
  with step lr lp show ?case by simp
qed

lemma random_sample_ok:
  assumes "0 \<le> k" and "k \<le> int (length population)"
  shows "\<exists>res g'. random_sample population k g = Inr (res, g')
           \<and> length res = nat k \<and> mset res \<subseteq># mset population"
proof -
  have "nat k \<le> length population" using assms by simp
  from sample_fold_invariant [OF this, of g] obtain res pool g' where
    f: "fold (sample_step (length population)) [0..<nat k] ([], population, g) = (res, pool, g')"
    and lr: "length res = nat k"
    and ms: "mset res + mset (take (length population - nat k) pool) = mset population"
    by blast
  have "mset res \<subseteq># mset population"
    using ms by (metis mset_subset_eq_add_left)
  moreover have "random_sample population k g = Inr (res, g')"
    using assms f by (simp add: random_sample_def)
  ultimately show ?thesis using lr by blast
qed

lemma distinct_submset:
  assumes "mset xs \<subseteq># mset ys" and "distinct ys"
  shows "distinct xs"
proof -
  have "count (mset xs) a = (if a \<in> set xs then 1 else 0)" for a
  proof (cases "a \<in> set xs")
    case True
    then have "0 < count (mset xs) a" by simp
    moreover have "count (mset xs) a \<le> count (mset ys) a"
      using assms(1) by (rule mset_subset_eq_count)
    moreover have "count (mset ys) a \<le> 1"
      using assms(2) unfolding distinct_count_atmost_1 by simp
    ultimately have "count (mset xs) a = 1" by linarith
    with True show ?thesis by simp
  next
    case False
    then show ?thesis by (simp add: count_eq_zero_iff)
  qed
  then show ?thesis unfolding distinct_count_atmost_1 by blast
qed

lemma digits_nonempty: "digits n \<noteq> []"
  by (subst digits.simps) simp

subsection \<open>C2: what \<open>sample_questions\<close> returns\<close>

text \<open>
  Claim C2. For every bank of \<open>M\<close> questions (the references in its list pairwise
  distinct, as the constructor makes them) and every \<open>n\<close> from 0 to \<open>M\<close>,
  \<open>sample_questions\<close> returns a list of exactly \<open>n\<close> references, pairwise distinct, all
  from the list of the bank, and no cell of the bank's list is used more often than it
  occurs; with \<open>n = 0\<close> the list is empty and no error is raised. The bank after the call
  is the bank before the call.
\<close>

theorem sample_questions_distinct_from_bank:
  assumes "0 \<le> n" and "n \<le> int (length (questions b))" and "distinct (questions b)"
  shows "\<exists>res g'.
           sample_questions b n g = Inr (res, b, g')
         \<and> length res = nat n
         \<and> distinct res
         \<and> set res \<subseteq> set (questions b)
         \<and> mset res \<subseteq># mset (questions b)
         \<and> (n = 0 \<longrightarrow> res = [])"
proof -
  obtain res g' where r: "random_sample (questions b) n g = Inr (res, g')"
    and lr: "length res = nat n" and ms: "mset res \<subseteq># mset (questions b)"
    using random_sample_ok [OF assms(1,2), of g] by blast
  have s: "sample_questions b n g = Inr (res, b, g')"
    using assms(2) r by (simp add: sample_questions_def)
  have sub: "set res \<subseteq> set (questions b)"
    using set_mset_mono [OF ms] by simp
  have d: "distinct res"
    using ms assms(3) by (rule distinct_submset)
  have "n = 0 \<longrightarrow> res = []" using lr by auto
  with s lr d sub ms show ?thesis by blast
qed

theorem sample_questions_distinct_from_bank_witness:
  "(0::int) \<le> 2 \<and> 2 \<le> int (length (questions bank3)) \<and> distinct (questions bank3)
   \<and> (\<exists>res g'.
           sample_questions bank3 2 [0, 0] = Inr (res, bank3, g')
         \<and> length res = nat 2
         \<and> distinct res
         \<and> set res \<subseteq> set (questions bank3)
         \<and> mset res \<subseteq># mset (questions bank3)
         \<and> ((2::int) = 0 \<longrightarrow> res = []))"
proof -
  have a: "(0::int) \<le> 2" by simp
  have b: "2 \<le> int (length (questions bank3))" by (simp add: bank3_def)
  have c: "distinct (questions bank3)" by (simp add: bank3_def)
  note main = sample_questions_distinct_from_bank [OF a b c, of "[0, 0]"]
  show ?thesis by (intro conjI a b c main)
qed

subsection \<open>C3: when \<open>sample_questions\<close> raises\<close>

lemma capacity_message_not_library:
  "capacity_message n m \<noteq> ''Sample larger than population or is negative''"
  by (simp add: capacity_message_def)

text \<open>
  Claim C3. For a bank of \<open>M\<close> questions, \<open>sample_questions\<close> raises the \<open>ValueError\<close>
  of line 80, the capacity error, for every \<open>n > M\<close>, and returns for every \<open>n\<close> from 0
  to \<open>M\<close>; the capacity error is raised exactly when \<open>n > M\<close>. (For a negative \<open>n\<close> the
  test of line 79 passes and \<open>random.sample\<close> raises its own \<open>ValueError\<close>.)
\<close>

theorem sample_questions_capacity_error:
  "(int (length (questions b)) < n \<longrightarrow>
      sample_questions b n g = Inl (ValueError (capacity_message n (length (questions b)))))
   \<and> (0 \<le> n \<and> n \<le> int (length (questions b)) \<longrightarrow>
      (\<exists>res b' g'. sample_questions b n g = Inr (res, b', g')))
   \<and> ((\<exists>m. sample_questions b n g = Inl (ValueError (capacity_message n m)))
        \<longleftrightarrow> int (length (questions b)) < n)
   \<and> (n < 0 \<longrightarrow>
      sample_questions b n g
        = Inl (ValueError ''Sample larger than population or is negative''))"
proof -
  let ?M = "length (questions b)"
  have over: "sample_questions b n g = Inl (ValueError (capacity_message n ?M))"
    if "int ?M < n"
    using that by (simp add: sample_questions_def)
  have inside: "\<exists>res b' g'. sample_questions b n g = Inr (res, b', g')"
    if "0 \<le> n \<and> n \<le> int ?M"
  proof -
    from that have a: "0 \<le> n" and b: "n \<le> int ?M" by simp_all
    obtain res g' where "random_sample (questions b) n g = Inr (res, g')"
      using random_sample_ok [OF a b, of g] by blast
    with b have "sample_questions b n g = Inr (res, b, g')"
      by (simp add: sample_questions_def)
    then show ?thesis by blast
  qed
  have negative: "sample_questions b n g
        = Inl (ValueError ''Sample larger than population or is negative'')"
    if "n < 0"
    using that by (simp add: sample_questions_def random_sample_def)
  have iff: "(\<exists>m. sample_questions b n g = Inl (ValueError (capacity_message n m)))
        \<longleftrightarrow> int ?M < n"
  proof
    assume "\<exists>m. sample_questions b n g = Inl (ValueError (capacity_message n m))"
    then obtain m where e: "sample_questions b n g = Inl (ValueError (capacity_message n m))"
      by blast
    show "int ?M < n"
    proof (rule ccontr)
      assume "\<not> int ?M < n"
      then have le: "n \<le> int ?M" by simp
      show False
      proof (cases "0 \<le> n")
        case True
        with le inside e show False by auto
      next
        case False
        then have "n < 0" by simp
        from negative [OF this] e capacity_message_not_library [of n m]
        show False by simp
      qed
    qed
  next
    assume "int ?M < n"
    from over [OF this] show "\<exists>m. sample_questions b n g = Inl (ValueError (capacity_message n m))"
      by blast
  qed
  from over inside iff negative show ?thesis by blast
qed

theorem sample_questions_capacity_error_witness:
  "(int (length (questions bank3)) < 5
      \<and> sample_questions bank3 5 [0, 0]
          = Inl (ValueError ''Requested 5 questions but bank only has 3''))
   \<and> ((0::int) \<le> 2 \<and> 2 \<le> int (length (questions bank3))
      \<and> (\<exists>res b' g'. sample_questions bank3 2 [0, 0] = Inr (res, b', g')))
   \<and> ((0::int) \<le> 0 \<and> 0 \<le> int (length (questions bank3))
      \<and> (\<exists>res b' g'. sample_questions bank3 0 [0, 0] = Inr (res, b', g')))
   \<and> ((- 1 :: int) < 0
      \<and> sample_questions bank3 (- 1) [0, 0]
          = Inl (ValueError ''Sample larger than population or is negative''))"
proof -
  have l: "length (questions bank3) = 3" by (simp add: bank3_def)
  have msg: "capacity_message 5 3 = ''Requested 5 questions but bank only has 3''"
    by code_simp
  note over = sample_questions_capacity_error [of bank3 5 "[0, 0]"]
  note two = sample_questions_capacity_error [of bank3 2 "[0, 0]"]
  note zero = sample_questions_capacity_error [of bank3 0 "[0, 0]"]
  note neg = sample_questions_capacity_error [of bank3 "- 1" "[0, 0]"]
  have 1: "int (length (questions bank3)) < 5
      \<and> sample_questions bank3 5 [0, 0]
          = Inl (ValueError ''Requested 5 questions but bank only has 3'')"
    using over l msg by simp
  have 2: "(0::int) \<le> 2 \<and> 2 \<le> int (length (questions bank3))
      \<and> (\<exists>res b' g'. sample_questions bank3 2 [0, 0] = Inr (res, b', g'))"
    using two l by simp
  have 3: "(0::int) \<le> 0 \<and> 0 \<le> int (length (questions bank3))
      \<and> (\<exists>res b' g'. sample_questions bank3 0 [0, 0] = Inr (res, b', g'))"
    using zero l by simp
  have 4: "(- 1 :: int) < 0
      \<and> sample_questions bank3 (- 1) [0, 0]
          = Inl (ValueError ''Sample larger than population or is negative'')"
    using neg by simp
  from 1 2 3 4 show ?thesis by (intro conjI) simp_all
qed

subsection \<open>C9: the version placeholder in a custom preamble\<close>

lemma joined_Cons: "ps \<noteq> [] \<Longrightarrow> joined sep (p # ps) = p @ sep @ joined sep ps"
  by (cases ps) simp_all

lemma joined_Cons_head:
  "ps \<noteq> [] \<Longrightarrow> joined sep ((c # hd ps) # tl ps) = c # joined sep ps"
  by (cases "(sep, ps)" rule: joined.cases) simp_all

lemma joined_prefix_head: "ps \<noteq> [] \<Longrightarrow> prefix (hd ps) (joined sep ps)"
  by (cases "(sep, ps)" rule: joined.cases) simp_all

text \<open>
  What \<open>replace_from\<close> computes: the text is cut into pieces free of \<open>old\<close> that are
  separated by occurrences of \<open>old\<close>, and these occurrences are replaced by \<open>new\<close>.
\<close>

lemma replace_from_pieces:
  assumes "old \<noteq> []"
  shows "\<exists>ps. ps \<noteq> [] \<and> s = joined old ps \<and> replace_from old new s = joined new ps
           \<and> (\<forall>p \<in> set ps. \<not> sublist old p)"
  using assms
proof (induction old new s rule: replace_from.induct)
  case (1 old new)
  have "[[]] \<noteq> [] \<and> [] = joined old [[]] \<and> replace_from old new [] = joined new [[]]
          \<and> (\<forall>p \<in> set [[]]. \<not> sublist old p)"
    using 1 by simp
  then show ?case by blast
next
  case (2 old new c cs)
  show ?case
  proof (cases "prefix old (c # cs)")
    case True
    then have split: "c # cs = old @ drop (length old) (c # cs)"
      by (metis append_take_drop_id prefix_def append_eq_conv_conj)
    from 2(1) 2(3) True obtain ps where ps: "ps \<noteq> []"
      "drop (length old) (c # cs) = joined old ps"
      "replace_from old new (drop (length old) (c # cs)) = joined new ps"
      "\<forall>p \<in> set ps. \<not> sublist old p"
      by blast
    have "[] # ps \<noteq> []" by simp
    moreover have "c # cs = joined old ([] # ps)"
      using split ps(1,2) by (simp add: joined_Cons)
    moreover have "replace_from old new (c # cs) = joined new ([] # ps)"
      using True 2(3) ps(1,3) by (simp add: joined_Cons)
    moreover have "\<forall>p \<in> set ([] # ps). \<not> sublist old p"
      using ps(4) 2(3) by simp
    ultimately show ?thesis by blast
  next
    case False
    with 2(2) 2(3) obtain ps where ps: "ps \<noteq> []"
      "cs = joined old ps" "replace_from old new cs = joined new ps"
      "\<forall>p \<in> set ps. \<not> sublist old p"
      by blast
    let ?qs = "(c # hd ps) # tl ps"
    have "?qs \<noteq> []" by simp
    moreover have "c # cs = joined old ?qs"
      using ps(1,2) by (simp add: joined_Cons_head)
    moreover have "replace_from old new (c # cs) = joined new ?qs"
      using False ps(1,3) by (simp add: joined_Cons_head)
    moreover have "\<forall>p \<in> set ?qs. \<not> sublist old p"
    proof -
      have "\<not> sublist old (c # hd ps)"
      proof
        assume "sublist old (c # hd ps)"
        then have "prefix old (c # hd ps) \<or> sublist old (hd ps)"
          by (simp add: sublist_Cons_right)
        then show False
        proof
          assume "prefix old (c # hd ps)"
          moreover have "prefix (c # hd ps) (c # cs)"
            using joined_prefix_head [OF ps(1), of old] ps(2) by simp
          ultimately have "prefix old (c # cs)" by (rule prefix_order.trans)
          with False show False by simp
        next
          assume "sublist old (hd ps)"
          with ps(1,4) show False by (cases ps) simp_all
        qed
      qed
      moreover have "\<forall>p \<in> set (tl ps). \<not> sublist old p"
        using ps(1,4) by (cases ps) simp_all
      ultimately show ?thesis by simp
    qed
    ultimately show ?thesis by blast
  qed
qed

text \<open>No occurrence is left when the replacement shares no character with \<open>old\<close>.\<close>

lemma joined_free:
  assumes "old \<noteq> []" and "new \<noteq> []" and "set new \<inter> set old = {}"
    and "\<forall>p \<in> set ps. \<not> sublist old p"
  shows "\<not> sublist old (joined new ps)"
  using assms(4)
proof (induction ps)
  case Nil
  then show ?case using assms(1) by simp
next
  case (Cons p ps)
  show ?case
  proof (cases "ps = []")
    case True
    with Cons.prems show ?thesis by simp
  next
    case False
    let ?r = "joined new ps"
    have j: "joined new (p # ps) = p @ new @ ?r"
      using False by (rule joined_Cons)
    have rest: "\<not> sublist old ?r"
      using Cons by simp
    have p: "\<not> sublist old p" using Cons.prems by simp
    have nv: "\<not> sublist old (new @ ?r)"
    proof
      assume "sublist old (new @ ?r)"
      then consider "sublist old new" | "sublist old ?r"
        | xs1 xs2 where "old = xs1 @ xs2" "suffix xs1 new" "prefix xs2 ?r"
        by (auto simp: sublist_append)
      then show False
      proof cases
        case 1
        then have "set old \<subseteq> set new" by (rule set_mono_sublist)
        with assms(1,3) show False by (cases old) auto
      next
        case 2
        with rest show False by simp
      next
        case 3
        show False
        proof (cases "xs1 = []")
          case True
          with 3 have "sublist old ?r" by simp
          with rest show False by simp
        next
          case False
          then have "last xs1 \<in> set xs1" by simp
          moreover have "set xs1 \<subseteq> set new" using 3(2) by (rule set_mono_suffix)
          moreover have "set xs1 \<subseteq> set old" using 3(1) by simp
          ultimately show False using assms(3) by auto
        qed
      qed
    qed
    show ?thesis
    proof
      assume "sublist old (joined new (p # ps))"
      then have "sublist old (p @ new @ ?r)" by (simp only: j)
      then consider "sublist old p" | "sublist old (new @ ?r)"
        | xs1 xs2 where "old = xs1 @ xs2" "suffix xs1 p" "prefix xs2 (new @ ?r)"
        by (auto simp: sublist_append)
      then show False
      proof cases
        case 1
        with p show False by simp
      next
        case 2
        with nv show False by simp
      next
        case 3
        show False
        proof (cases "xs2 = []")
          case True
          with 3 have "sublist old p" by simp
          with p show False by simp
        next
          case False
          then obtain x xs where x: "xs2 = x # xs" by (cases xs2) auto
          obtain y ys where y: "new = y # ys" using assms(2) by (cases new) auto
          from 3(3) x y have "x = y" by simp
          with x y 3(1) assms(3) show False by auto
        qed
      qed
    qed
  qed
qed

lemma replace_from_none:
  "\<not> sublist old s \<Longrightarrow> replace_from old new s = s"
proof (induction s)
  case Nil
  then show ?case by simp
next
  case (Cons c cs)
  then have "\<not> prefix old (c # cs)" and "\<not> sublist old cs"
    by (auto simp: sublist_Cons_right)
  with Cons.IH show ?case by simp
qed

lemma replace_from_first:
  assumes "old \<noteq> []" and "\<not> sublist old (a @ butlast old)"
  shows "replace_from old new (a @ old @ rest) = a @ new @ replace_from old new rest"
  using assms(2)
proof (induction a)
  case Nil
  obtain c cs where old: "old = c # cs" using assms(1) by (cases old) auto
  have "replace_from old new ((c # cs) @ rest)
          = new @ replace_from old new (drop (length old) ((c # cs) @ rest))"
    unfolding old by simp
  then show ?case by (simp add: old)
next
  case (Cons x a)
  have np: "\<not> prefix old ((x # a) @ old @ rest)"
  proof
    assume pre: "prefix old ((x # a) @ old @ rest)"
    have "prefix ((x # a) @ butlast old) ((x # a) @ old @ rest)"
      using assms(1) by (simp add: prefix_def) (metis append_butlast_last_id append_assoc)
    moreover have "length old \<le> length ((x # a) @ butlast old)" by simp
    ultimately have "prefix old ((x # a) @ butlast old)"
      using pre by (intro prefix_length_prefix [of old _ "(x # a) @ butlast old"])
    then have "sublist old ((x # a) @ butlast old)" by (rule prefix_imp_sublist)
    with Cons.prems show False by simp
  qed
  have "\<not> sublist old (a @ butlast old)"
    using Cons.prems by (auto simp: sublist_Cons_right)
  from Cons.IH [OF this] np show ?case by simp
qed

lemma digits_chars: "set (digits n) \<subseteq> set ''0123456789''"
proof (induction n rule: digits.induct)
  case (1 n)
  show ?case
  proof (cases "n < 10")
    case True
    then have "''0123456789'' ! n \<in> set ''0123456789''"
      by (intro nth_mem) simp
    with True show ?thesis by (subst digits.simps) simp
  next
    case False
    have "n mod 10 < length ''0123456789''" by simp
    then have "''0123456789'' ! (n mod 10) \<in> set ''0123456789''"
      by (rule nth_mem)
    with False 1 show ?thesis by (subst digits.simps) simp
  qed
qed

lemma str_int_no_percent: "set (str_int i) \<inter> set placeholder = {}"
proof -
  define S where "S = set ''-0123456789''"
  have w: "set ''0123456789'' \<subseteq> S" unfolding S_def by simp
  have d: "set (digits n) \<subseteq> S" for n
    using digits_chars [of n] w by (rule subset_trans)
  have m: "CHR ''-'' \<in> S" unfolding S_def by simp
  have disj: "S \<inter> set placeholder = {}"
    unfolding S_def by (simp add: placeholder_def)
  have sub: "set (str_int i) \<subseteq> S"
  proof (cases "i < 0")
    case True
    then have "set (str_int i) = insert CHR ''-'' (set (digits (nat (- i))))"
      by (simp add: str_int_def)
    also have "\<dots> \<subseteq> S"
      using m d [of "nat (- i)"] by (rule insert_subsetI)
    finally show ?thesis .
  next
    case False
    then have "set (str_int i) = set (digits (nat i))"
      by (simp add: str_int_def)
    also have "\<dots> \<subseteq> S" by (rule d)
    finally show ?thesis .
  qed
  from sub disj show ?thesis by blast
qed

lemma str_int_nonempty: "str_int i \<noteq> []"
  by (simp add: str_int_def digits_nonempty)

text \<open>
  Claim C9. When a preamble file is configured and can be read, \<open>_generate_preamble\<close>
  returns its text with the occurrences of the placeholder replaced by the version
  number as a string, and prints nothing: the text is a sequence of pieces free of the
  placeholder with the placeholder between them, and the result is the same pieces with
  the version string between them; the result holds no placeholder any more. In
  particular, in a template with two occurrences (each the first occurrence in what is
  left of the text) both are replaced.
\<close>

theorem preamble_placeholder_replaced:
  assumes "preamble_file self = Some path" and "path \<noteq> []" and "fs path = Inr template"
  shows "\<exists>out.
           generate_preamble fs self version = Inr (out, [])
         \<and> (\<exists>ps. ps \<noteq> [] \<and> template = joined placeholder ps
                \<and> out = joined (str_int version) ps
                \<and> (\<forall>p \<in> set ps. \<not> sublist placeholder p))
         \<and> \<not> sublist placeholder out
         \<and> (\<forall>a b c. template = a @ placeholder @ b @ placeholder @ c
                \<and> \<not> sublist placeholder (a @ butlast placeholder)
                \<and> \<not> sublist placeholder (b @ butlast placeholder)
                \<and> \<not> sublist placeholder c
              \<longrightarrow> out = a @ str_int version @ b @ str_int version @ c)"
proof -
  let ?v = "str_int version"
  let ?out = "replace_from placeholder ?v template"
  have ne: "placeholder \<noteq> []" by (simp add: placeholder_def)
  have g: "generate_preamble fs self version = Inr (?out, [])"
    using assms ne by (simp add: generate_preamble_def str_replace_def)
  obtain ps where ps: "ps \<noteq> []" "template = joined placeholder ps" "?out = joined ?v ps"
    "\<forall>p \<in> set ps. \<not> sublist placeholder p"
    using replace_from_pieces [OF ne, of template ?v] by blast
  have free: "\<not> sublist placeholder ?out"
    unfolding ps(3)
    by (rule joined_free [OF ne str_int_nonempty str_int_no_percent ps(4)])
  have two: "?out = a @ ?v @ b @ ?v @ c"
    if "template = a @ placeholder @ b @ placeholder @ c
        \<and> \<not> sublist placeholder (a @ butlast placeholder)
        \<and> \<not> sublist placeholder (b @ butlast placeholder)
        \<and> \<not> sublist placeholder c" for a b c
  proof -
    from that have t: "template = a @ placeholder @ b @ placeholder @ c"
      and a: "\<not> sublist placeholder (a @ butlast placeholder)"
      and b: "\<not> sublist placeholder (b @ butlast placeholder)"
      and c: "\<not> sublist placeholder c"
      by simp_all
    have "?out = a @ ?v @ replace_from placeholder ?v (b @ placeholder @ c)"
      unfolding t by (rule replace_from_first [OF ne a])
    also have "replace_from placeholder ?v (b @ placeholder @ c)
                 = b @ ?v @ replace_from placeholder ?v c"
      by (rule replace_from_first [OF ne b])
    also have "replace_from placeholder ?v c = c"
      by (rule replace_from_none [OF c])
    finally show ?thesis .
  qed
  from g ps free two show ?thesis by blast
qed

theorem preamble_placeholder_replaced_witness:
  "preamble_file gen_template = Some ''pre.tex'' \<and> ''pre.tex'' \<noteq> []
   \<and> fs_template ''pre.tex'' = Inr ''V%%VERSION%% v%%VERSION%%!''
   \<and> generate_preamble fs_template gen_template 7 = Inr (''V7 v7!'', [])"
proof -
  have p: "preamble_file gen_template = Some ''pre.tex''"
    by (simp add: gen_template_def ExamGenerator_init_def)
  have n: "''pre.tex'' \<noteq> []" by simp
  have f: "fs_template ''pre.tex'' = Inr ''V%%VERSION%% v%%VERSION%%!''"
    by (simp add: fs_template_def)
  from preamble_placeholder_replaced
    [where fs = fs_template and self = gen_template and path = "''pre.tex''"
       and template = "''V%%VERSION%% v%%VERSION%%!''" and version = 7, OF p n f]
  obtain out where
    g: "generate_preamble fs_template gen_template 7 = Inr (out, [])"
    and two: "\<forall>a b c. ''V%%VERSION%% v%%VERSION%%!'' = a @ placeholder @ b @ placeholder @ c
                \<and> \<not> sublist placeholder (a @ butlast placeholder)
                \<and> \<not> sublist placeholder (b @ butlast placeholder)
                \<and> \<not> sublist placeholder c
              \<longrightarrow> out = a @ str_int 7 @ b @ str_int 7 @ c"
    by blast
  have t: "''V%%VERSION%% v%%VERSION%%!'' = ''V'' @ placeholder @ '' v'' @ placeholder @ ''!''"
    by (simp add: placeholder_def)
  have a: "\<not> sublist placeholder (''V'' @ butlast placeholder)" by code_simp
  have b: "\<not> sublist placeholder ('' v'' @ butlast placeholder)" by code_simp
  have c: "\<not> sublist placeholder ''!''" by code_simp
  have v: "str_int 7 = ''7''" by code_simp
  from two t a b c have "out = ''V'' @ str_int 7 @ '' v'' @ str_int 7 @ ''!''"
    by blast
  with v have "out = ''V7 v7!''" by simp
  with g p n f show ?thesis by simp
qed

subsection \<open>C5: the errors of \<open>generate_exam\<close>\<close>

lemma sample_questions_self:
  "sample_questions b k g = Inr (qs, b', g') \<Longrightarrow> b' = b"
  by (auto simp: sample_questions_def split: if_splits sum.splits)

lemma sample_all_step:
  assumes "m nm = Some bank" and "sample_questions bank k g = Inr (qs, b', g')"
  shows "sample_all m ((nm, k) # rest) acc g = sample_all m rest (acc @ qs) g'"
proof -
  have "b' = bank" using assms(2) by (rule sample_questions_self)
  then have "m(nm \<mapsto> b') = m" using assms(1) by (simp add: map_upd_triv)
  with assms show ?thesis by simp
qed

text \<open>Entries that name a loaded bank and ask for no more than it holds are passed.\<close>

lemma sample_all_passes:
  assumes "\<forall>(nm, k) \<in> set before.
             \<exists>bank. m nm = Some bank \<and> 0 \<le> k \<and> k \<le> int (length (questions bank))"
  shows "\<exists>acc' g'. sample_all m (before @ rest) acc g = sample_all m rest acc' g'"
  using assms
proof (induction before arbitrary: acc g)
  case Nil
  then show ?case by auto
next
  case (Cons entry before)
  obtain nm k where entry: "entry = (nm, k)" by (cases entry)
  from Cons.prems entry obtain bank where bank: "m nm = Some bank"
    and k: "0 \<le> k" "k \<le> int (length (questions bank))"
    by auto
  obtain qs g1 where "random_sample (questions bank) k g = Inr (qs, g1)"
    using random_sample_ok [OF k, of g] by blast
  with k have "sample_questions bank k g = Inr (qs, bank, g1)"
    by (simp add: sample_questions_def)
  from sample_all_step [where m = m and nm = nm, OF bank this]
  have step: "sample_all m (entry # before @ rest) acc g
                = sample_all m (before @ rest) (acc @ qs) g1"
    by (simp add: entry)
  have "\<forall>(nm, k) \<in> set before.
             \<exists>bank. m nm = Some bank \<and> 0 \<le> k \<and> k \<le> int (length (questions bank))"
    using Cons.prems by simp
  from Cons.IH [OF this, of "acc @ qs" g1] step show ?case by simp
qed

text \<open>With an entry that names no loaded bank the loop always ends in an error.\<close>

lemma sample_all_absent:
  assumes "\<exists>(nm, k) \<in> set sel. m nm = None"
  shows "\<exists>e. sample_all m sel acc g = Inl e"
  using assms
proof (induction sel arbitrary: acc g)
  case Nil
  then show ?case by simp
next
  case (Cons entry sel)
  obtain nm k where entry: "entry = (nm, k)" by (cases entry)
  show ?case
  proof (cases "m nm")
    case None
    then show ?thesis by (simp add: entry)
  next
    case (Some bank)
    with Cons.prems entry have rest: "\<exists>(nm, k) \<in> set sel. m nm = None" by auto
    show ?thesis
    proof (cases "sample_questions bank k g")
      case (Inl e)
      with Some show ?thesis by (simp add: entry)
    next
      case (Inr r)
      obtain qs b' g' where r: "r = (qs, b', g')" by (cases r)
      from sample_all_step [where m = m and nm = nm, OF Some Inr [unfolded r]] Cons.IH [OF rest, of "acc @ qs" g']
      show ?thesis by (simp add: entry)
    qed
  qed
qed

lemma generate_exam_sampling_error:
  assumes "generate_preamble fs self version = Inr (pre, printed)"
    and "sample_all (banks self) sel [] g = Inl e"
  shows "generate_exam fs self sel version s g = Inl e"
  using assms by (simp add: generate_exam_def)

text \<open>
  Claim C5, as the code has it. With a selections entry that names no loaded bank,
  \<open>generate_exam\<close> always fails. The error is the one of the first entry, in the order
  of the dictionary, that fails: when all entries before it name loaded banks and ask for
  a number between 0 and the size of the bank, and the preamble could be generated, an
  entry that names no loaded bank gives the \<open>ValueError\<close> of line 100, and an entry that
  names a loaded bank and asks for more than it holds gives the \<open>ValueError\<close> of
  \<open>sample_questions\<close>, as that method raises it.
\<close>

theorem generate_exam_first_failing_entry:
  "((\<exists>(nm, k) \<in> set sel. banks self nm = None)
      \<longrightarrow> (\<exists>e. generate_exam fs self sel version s g = Inl e))
   \<and> ((\<exists>pre printed. generate_preamble fs self version = Inr (pre, printed))
       \<and> (\<forall>(nm, k) \<in> set before.
             \<exists>bank. banks self nm = Some bank \<and> 0 \<le> k \<and> k \<le> int (length (questions bank)))
      \<longrightarrow>
        (banks self bank_name = None
           \<longrightarrow> generate_exam fs self (before @ (bank_name, num) # rest) version s g
                 = Inl (ValueError (not_found_message bank_name)))
      \<and> (\<forall>bank. banks self bank_name = Some bank \<and> int (length (questions bank)) < num
           \<longrightarrow> (\<forall>g'. sample_questions bank num g'
                        = Inl (ValueError (capacity_message num (length (questions bank)))))
             \<and> generate_exam fs self (before @ (bank_name, num) # rest) version s g
                 = Inl (ValueError (capacity_message num (length (questions bank))))))"
proof (rule conjI)
  show "(\<exists>(nm, k) \<in> set sel. banks self nm = None)
      \<longrightarrow> (\<exists>e. generate_exam fs self sel version s g = Inl e)"
  proof
    assume absent: "\<exists>(nm, k) \<in> set sel. banks self nm = None"
    show "\<exists>e. generate_exam fs self sel version s g = Inl e"
    proof (cases "generate_preamble fs self version")
      case (Inl e)
      then show ?thesis by (simp add: generate_exam_def)
    next
      case (Inr r)
      obtain pre printed where r: "r = (pre, printed)" by (cases r)
      obtain e where "sample_all (banks self) sel [] g = Inl e"
        using sample_all_absent [where m = "banks self", OF absent, of "[]" g] by blast
      from generate_exam_sampling_error [OF Inr [unfolded r] this] show ?thesis by blast
    qed
  qed
next
  show "(\<exists>pre printed. generate_preamble fs self version = Inr (pre, printed))
       \<and> (\<forall>(nm, k) \<in> set before.
             \<exists>bank. banks self nm = Some bank \<and> 0 \<le> k \<and> k \<le> int (length (questions bank)))
      \<longrightarrow>
        (banks self bank_name = None
           \<longrightarrow> generate_exam fs self (before @ (bank_name, num) # rest) version s g
                 = Inl (ValueError (not_found_message bank_name)))
      \<and> (\<forall>bank. banks self bank_name = Some bank \<and> int (length (questions bank)) < num
           \<longrightarrow> (\<forall>g'. sample_questions bank num g'
                        = Inl (ValueError (capacity_message num (length (questions bank)))))
             \<and> generate_exam fs self (before @ (bank_name, num) # rest) version s g
                 = Inl (ValueError (capacity_message num (length (questions bank)))))"
  proof
    assume a: "(\<exists>pre printed. generate_preamble fs self version = Inr (pre, printed))
       \<and> (\<forall>(nm, k) \<in> set before.
             \<exists>bank. banks self nm = Some bank \<and> 0 \<le> k \<and> k \<le> int (length (questions bank)))"
    then obtain pre printed where
      pre: "generate_preamble fs self version = Inr (pre, printed)"
      by blast
    from a have ok: "\<forall>(nm, k) \<in> set before.
             \<exists>bank. banks self nm = Some bank \<and> 0 \<le> k \<and> k \<le> int (length (questions bank))"
      by blast
    obtain acc' g1 where pass:
      "sample_all (banks self) (before @ (bank_name, num) # rest) [] g
         = sample_all (banks self) ((bank_name, num) # rest) acc' g1"
      using sample_all_passes [where m = "banks self", OF ok, of "(bank_name, num) # rest" "[]" g]
      by blast
    have absent: "generate_exam fs self (before @ (bank_name, num) # rest) version s g
                 = Inl (ValueError (not_found_message bank_name))"
      if "banks self bank_name = None"
    proof -
      from that pass
      have "sample_all (banks self) (before @ (bank_name, num) # rest) [] g
                      = Inl (ValueError (not_found_message bank_name))"
        by simp
      from generate_exam_sampling_error [OF pre this] show ?thesis .
    qed
    have over: "(\<forall>g'. sample_questions bank num g'
                        = Inl (ValueError (capacity_message num (length (questions bank)))))
             \<and> generate_exam fs self (before @ (bank_name, num) # rest) version s g
                 = Inl (ValueError (capacity_message num (length (questions bank))))"
      if b: "banks self bank_name = Some bank \<and> int (length (questions bank)) < num"
      for bank
    proof -
      have raise: "sample_questions bank num g'
                   = Inl (ValueError (capacity_message num (length (questions bank))))" for g'
        using b by (simp add: sample_questions_def)
      with b pass
      have "sample_all (banks self) (before @ (bank_name, num) # rest) [] g
                      = Inl (ValueError (capacity_message num (length (questions bank))))"
        by simp
      from generate_exam_sampling_error [OF pre this] raise show ?thesis by blast
    qed
    from absent over show
      "(banks self bank_name = None
           \<longrightarrow> generate_exam fs self (before @ (bank_name, num) # rest) version s g
                 = Inl (ValueError (not_found_message bank_name)))
      \<and> (\<forall>bank. banks self bank_name = Some bank \<and> int (length (questions bank)) < num
           \<longrightarrow> (\<forall>g'. sample_questions bank num g'
                        = Inl (ValueError (capacity_message num (length (questions bank)))))
             \<and> generate_exam fs self (before @ (bank_name, num) # rest) version s g
                 = Inl (ValueError (capacity_message num (length (questions bank)))))"
      by blast
  qed
qed

theorem generate_exam_first_failing_entry_witness:
  "(\<exists>(nm, k) \<in> set [(''midterm'', 2), (''quiz'', 1)]. banks gen_two nm = None)
   \<and> (\<exists>e. generate_exam fs_none gen_two [(''midterm'', 2), (''quiz'', 1)] 1 store_abc [0, 0]
            = Inl e)
   \<and> (\<exists>pre printed. generate_preamble fs_none gen_two 1 = Inr (pre, printed))
   \<and> banks gen_two ''midterm'' = Some bank3
   \<and> (0::int) \<le> 2 \<and> 2 \<le> int (length (questions bank3))
   \<and> banks gen_two ''quiz'' = None
   \<and> generate_exam fs_none gen_two ([(''midterm'', 2)] @ (''quiz'', 1) # []) 1 store_abc [0, 0]
        = Inl (ValueError (not_found_message ''quiz''))
   \<and> banks gen_two ''final'' = Some bank2 \<and> int (length (questions bank2)) < 5
   \<and> generate_exam fs_none gen_two ([(''midterm'', 2)] @ (''final'', 5) # []) 1 store_abc [0, 0]
        = Inl (ValueError (capacity_message 5 (length (questions bank2))))"
proof -
  have absent: "\<exists>(nm, k) \<in> set [(''midterm'', 2), (''quiz'', 1)]. banks gen_two nm = None"
    by (simp add: gen_two_def)
  have pre: "\<exists>pre printed. generate_preamble fs_none gen_two 1 = Inr (pre, printed)"
    by (simp add: generate_preamble_def gen_two_def)
  have ok: "\<forall>(nm, k) \<in> set [(''midterm'', 2)].
         \<exists>bank. banks gen_two nm = Some bank \<and> 0 \<le> k \<and> k \<le> int (length (questions bank))"
    by (simp add: gen_two_def bank3_def)
  have quiz: "banks gen_two ''quiz'' = None" by (simp add: gen_two_def)
  have final: "banks gen_two ''final'' = Some bank2 \<and> int (length (questions bank2)) < 5"
    by (simp add: gen_two_def bank2_def)
  note one = generate_exam_first_failing_entry
    [where self = gen_two and fs = fs_none and version = 1 and s = store_abc and g = "[0, 0]"
       and sel = "[(''midterm'', 2), (''quiz'', 1)]" and before = "[(''midterm'', 2)]"
       and bank_name = "''quiz''" and num = 1 and rest = "[]"]
  note two = generate_exam_first_failing_entry
    [where self = gen_two and fs = fs_none and version = 1 and s = store_abc and g = "[0, 0]"
       and sel = "[]" and before = "[(''midterm'', 2)]"
       and bank_name = "''final''" and num = 5 and rest = "[]"]
  have r1: "\<exists>e. generate_exam fs_none gen_two [(''midterm'', 2), (''quiz'', 1)] 1 store_abc [0, 0]
            = Inl e"
    using one absent by blast
  have r2: "generate_exam fs_none gen_two ([(''midterm'', 2)] @ (''quiz'', 1) # []) 1 store_abc
              [0, 0] = Inl (ValueError (not_found_message ''quiz''))"
    using one pre ok quiz by blast
  have r3: "generate_exam fs_none gen_two ([(''midterm'', 2)] @ (''final'', 5) # []) 1 store_abc
              [0, 0] = Inl (ValueError (capacity_message 5 (length (questions bank2))))"
    using two pre ok final by blast
  have mid: "banks gen_two ''midterm'' = Some bank3" by (simp add: gen_two_def)
  have two_le: "2 \<le> int (length (questions bank3))" by (simp add: bank3_def)
  have zero_le: "(0::int) \<le> 2" by simp
  show ?thesis
    by (intro conjI absent r1 pre mid zero_le two_le quiz r2 r3
        conjunct1 [OF final] conjunct2 [OF final])
qed

text \<open>
  The claim as the specification states it fails when an entry before the one that names
  no loaded bank asks for too many questions: the capacity error of that entry is raised,
  and the entry that names no loaded bank is never looked at.
\<close>

theorem generate_exam_capacity_before_absent_counterexample:
  "banks gen_two ''quiz'' = None
   \<and> generate_exam fs_none gen_two [(''midterm'', 5), (''quiz'', 1)] 1 store_abc []
       = Inl (ValueError ''Requested 5 questions but bank only has 3'')
   \<and> not_found_message ''quiz'' = ''Question bank '' @ [CHR 0x27] @ ''quiz'' @ [CHR 0x27] @ '' not found''"
proof -
  have "generate_preamble fs_none gen_two 1 = Inr (default_preamble 1, [])"
    by (simp add: generate_preamble_def gen_two_def)
  moreover have "sample_all (banks gen_two) [(''midterm'', 5), (''quiz'', 1)] [] []
                   = Inl (ValueError ''Requested 5 questions but bank only has 3'')"
  proof -
    have l: "length (questions bank3) = 3" by (simp add: bank3_def)
    have m: "capacity_message 5 3 = ''Requested 5 questions but bank only has 3''"
      by code_simp
    have sq: "sample_questions bank3 5 []
                = Inl (ValueError ''Requested 5 questions but bank only has 3'')"
      using l m by (simp add: sample_questions_def)
    have b: "banks gen_two ''midterm'' = Some bank3" by (simp add: gen_two_def)
    from b sq show ?thesis by simp
  qed
  ultimately have "generate_exam fs_none gen_two [(''midterm'', 5), (''quiz'', 1)] 1 store_abc []
       = Inl (ValueError ''Requested 5 questions but bank only has 3'')"
    by (rule generate_exam_sampling_error)
  moreover have "banks gen_two ''quiz'' = None" by (simp add: gen_two_def)
  moreover have "not_found_message ''quiz''
      = ''Question bank '' @ [CHR 0x27] @ ''quiz'' @ [CHR 0x27] @ '' not found''"
    by (simp add: not_found_message_def)
  ultimately show ?thesis by simp
qed

subsection \<open>C4: loading a bank file\<close>

lemma Question_init_incomplete:
  assumes "question_incomplete d"
  shows "\<exists>k \<in> set required_keys. Question_init d = Inl (KeyError k)"
  using assms
  by (auto simp: question_incomplete_def Question_init_def required_keys_def Let_def
      split: option.splits)

lemma Question_init_complete:
  assumes "\<not> question_incomplete d"
  shows "\<exists>q. Question_init d = Inr q \<and> shuffled_indices q = None"
  using assms
  by (auto simp: question_incomplete_def Question_init_def Let_def split: option.splits)

lemma Question_init_KeyError:
  "Question_init d = Inl e \<Longrightarrow> \<exists>k \<in> set required_keys. e = KeyError k"
  by (auto simp: Question_init_def required_keys_def Let_def split: option.splits)

lemma init_questions_incomplete:
  assumes "list_ex question_incomplete ds"
  shows "\<exists>k \<in> set required_keys. init_questions ds s = Inl (KeyError k)"
  using assms
proof (induction ds arbitrary: s)
  case Nil
  then show ?case by simp
next
  case (Cons d ds)
  show ?case
  proof (cases "Question_init d")
    case (Inl e)
    with Question_init_KeyError [OF Inl] show ?thesis by auto
  next
    case (Inr q)
    have "\<not> question_incomplete d"
      using Question_init_incomplete [of d] Inr by auto
    with Cons.prems have "list_ex question_incomplete ds" by simp
    from Cons.IH [OF this, of "alloc q s"] Inr show ?thesis by auto
  qed
qed

text \<open>The constructor gives the questions of a bank the next free addresses, in order.\<close>

lemma init_questions_refs:
  "init_questions ds s = Inr (rs, s') \<Longrightarrow>
     distinct rs \<and> (\<forall>r \<in> set rs. next_ref s \<le> r \<and> r < next_ref s')
     \<and> next_ref s \<le> next_ref s'"
proof (induction ds arbitrary: s rs s')
  case Nil
  then show ?case by simp
next
  case (Cons d ds)
  from Cons.prems obtain q rs1 where q: "Question_init d = Inr q"
    and r: "init_questions ds (alloc q s) = Inr (rs1, s')" and rs: "rs = next_ref s # rs1"
    by (auto split: sum.splits)
  from Cons.IH [OF r] have d: "distinct rs1"
    and b: "\<forall>r \<in> set rs1. Suc (next_ref s) \<le> r \<and> r < next_ref s'"
    and l: "Suc (next_ref s) \<le> next_ref s'"
    by (simp_all add: alloc_def)
  from b have "next_ref s \<notin> set rs1" by auto
  with d b l rs show ?case by auto
qed

lemma QuestionBank_init_distinct:
  assumes "QuestionBank_init fs safe_load yaml_file s = Inr (b, s')"
  shows "distinct (questions b)"
proof -
  from assms obtain ds where "init_questions ds s = Inr (questions b, s')"
    by (auto simp: QuestionBank_init_def split: sum.splits option.splits)
  from init_questions_refs [OF this] show ?thesis by simp
qed

text \<open>
  Claim C4. Loading a bank fails when the file cannot be opened or read (with the
  exception of \<open>open\<close>), when it cannot be parsed (with the exception of
  \<open>yaml.safe_load\<close>), and when a required field is absent: the bank name, the list of
  questions, or the text, type, choices or correct answers of a question; then the
  exception is the \<open>KeyError\<close> of a required key. In particular, a file with a name and
  without \<open>questions\<close> raises the \<open>KeyError\<close> of \<open>questions\<close>. (These exceptions are what
  the specification calls DataFormatError; the program defines no exception class.)
\<close>

theorem bank_file_errors:
  "(fs yaml_file = Inl e \<longrightarrow> QuestionBank_init fs safe_load yaml_file s = Inl e)
   \<and> (fs yaml_file = Inr f \<and> safe_load f = Inl e
        \<longrightarrow> QuestionBank_init fs safe_load yaml_file s = Inl e)
   \<and> (fs yaml_file = Inr f \<and> safe_load f = Inr data \<and> bank_incomplete data
        \<longrightarrow> (\<exists>k \<in> set required_keys.
               QuestionBank_init fs safe_load yaml_file s = Inl (KeyError k)))
   \<and> (fs yaml_file = Inr f \<and> safe_load f = Inr data \<and> questions_key data = None
        \<longrightarrow> QuestionBank_init fs safe_load yaml_file s
              = Inl (KeyError (if name_key data = None then ''name'' else ''questions'')))"
proof -
  have 1: "QuestionBank_init fs safe_load yaml_file s = Inl e" if "fs yaml_file = Inl e"
    using that by (simp add: QuestionBank_init_def)
  have 2: "QuestionBank_init fs safe_load yaml_file s = Inl e"
    if "fs yaml_file = Inr f \<and> safe_load f = Inl e"
    using that by (simp add: QuestionBank_init_def)
  have 3: "\<exists>k \<in> set required_keys.
               QuestionBank_init fs safe_load yaml_file s = Inl (KeyError k)"
    if a: "fs yaml_file = Inr f \<and> safe_load f = Inr data \<and> bank_incomplete data"
  proof (cases "name_key data")
    case None
    with a show ?thesis by (simp add: QuestionBank_init_def required_keys_def)
  next
    case (Some n)
    show ?thesis
    proof (cases "questions_key data")
      case None
      with a Some show ?thesis by (simp add: QuestionBank_init_def required_keys_def)
    next
      case (Some ds)
      with a \<open>name_key data = Some n\<close> have "list_ex question_incomplete ds"
        by (simp add: bank_incomplete_def)
      then obtain k where "k \<in> set required_keys" "init_questions ds s = Inl (KeyError k)"
        using init_questions_incomplete [of ds s] by blast
      with a Some \<open>name_key data = Some n\<close> show ?thesis
        by (auto simp: QuestionBank_init_def)
    qed
  qed
  have 4: "QuestionBank_init fs safe_load yaml_file s
              = Inl (KeyError (if name_key data = None then ''name'' else ''questions''))"
    if "fs yaml_file = Inr f \<and> safe_load f = Inr data \<and> questions_key data = None"
    using that by (auto simp: QuestionBank_init_def split: option.splits)
  from 1 2 3 4 show ?thesis by blast
qed

theorem bank_file_errors_witness:
  "(fs_bank ''missing.yaml'' = Inl (FileNotFoundError ''missing.yaml'')
    \<and> QuestionBank_init fs_bank load_no_questions ''missing.yaml'' store_abc
         = Inl (FileNotFoundError ''missing.yaml''))
   \<and> (fs_bank ''bank.yaml'' = Inr ''name: midterm''
    \<and> load_unparsable ''name: midterm'' = Inl YAMLError
    \<and> QuestionBank_init fs_bank load_unparsable ''bank.yaml'' store_abc = Inl YAMLError)
   \<and> ((\<exists>data. load_no_type ''name: midterm'' = Inr data \<and> bank_incomplete data)
    \<and> (\<exists>k \<in> set required_keys.
          QuestionBank_init fs_bank load_no_type ''bank.yaml'' store_abc = Inl (KeyError k)))
   \<and> ((\<exists>data. load_no_questions ''name: midterm'' = Inr data \<and> questions_key data = None
           \<and> name_key data \<noteq> None)
    \<and> QuestionBank_init fs_bank load_no_questions ''bank.yaml'' store_abc
         = Inl (KeyError ''questions''))"
proof -
  let ?nq = "\<lparr>name_key = Some ''midterm'', questions_key = None\<rparr>"
  let ?nt = "\<lparr>name_key = Some ''midterm'',
          questions_key = Some
            [\<lparr>text_key = Some ''Pick one'', points_key = None, type_key = None,
              choices_key = Some [''A'', ''B''], correct_answers_key = Some (Single ''A''),
              id_key = None\<rparr>]\<rparr>"
  have miss: "fs_bank ''missing.yaml'' = Inl (FileNotFoundError ''missing.yaml'')"
    by (simp add: fs_bank_def)
  have bankfile: "fs_bank ''bank.yaml'' = Inr ''name: midterm''"
    by (simp add: fs_bank_def)
  have bad: "load_unparsable ''name: midterm'' = Inl YAMLError"
    by (simp add: load_unparsable_def)
  have nt: "load_no_type ''name: midterm'' = Inr ?nt"
    by (simp add: load_no_type_def)
  have nti: "bank_incomplete ?nt"
    by (simp add: bank_incomplete_def question_incomplete_def)
  have nq: "load_no_questions ''name: midterm'' = Inr ?nq"
    by (simp add: load_no_questions_def)
  note a = bank_file_errors
    [where fs = fs_bank and yaml_file = "''missing.yaml''" and safe_load = load_no_questions
       and s = store_abc and e = "FileNotFoundError ''missing.yaml''"
       and f = "''name: midterm''" and data = ?nq]
  note b = bank_file_errors
    [where fs = fs_bank and yaml_file = "''bank.yaml''" and safe_load = load_unparsable
       and s = store_abc and e = YAMLError and f = "''name: midterm''" and data = ?nq]
  note c = bank_file_errors
    [where fs = fs_bank and yaml_file = "''bank.yaml''" and safe_load = load_no_type
       and s = store_abc and e = YAMLError and f = "''name: midterm''" and data = ?nt]
  note d = bank_file_errors
    [where fs = fs_bank and yaml_file = "''bank.yaml''" and safe_load = load_no_questions
       and s = store_abc and e = YAMLError and f = "''name: midterm''" and data = ?nq]
  have 1: "QuestionBank_init fs_bank load_no_questions ''missing.yaml'' store_abc
         = Inl (FileNotFoundError ''missing.yaml'')"
    using a miss by blast
  have 2: "QuestionBank_init fs_bank load_unparsable ''bank.yaml'' store_abc = Inl YAMLError"
    using b bankfile bad by blast
  have 3: "\<exists>k \<in> set required_keys.
          QuestionBank_init fs_bank load_no_type ''bank.yaml'' store_abc = Inl (KeyError k)"
    using c bankfile nt nti by blast
  have "QuestionBank_init fs_bank load_no_questions ''bank.yaml'' store_abc
         = Inl (KeyError (if name_key ?nq = None then ''name'' else ''questions''))"
    using d bankfile nq by simp
  then have 4: "QuestionBank_init fs_bank load_no_questions ''bank.yaml'' store_abc
         = Inl (KeyError ''questions'')"
    by simp
  have e3: "\<exists>data. load_no_type ''name: midterm'' = Inr data \<and> bank_incomplete data"
    using nt nti by blast
  have e4: "\<exists>data. load_no_questions ''name: midterm'' = Inr data \<and> questions_key data = None
           \<and> name_key data \<noteq> None"
    using nq by simp
  show ?thesis
    by (intro conjI miss 1 bankfile bad 2 e3 3 e4 4)
qed

subsection \<open>The calls can succeed\<close>

text \<open>
  The random source can give every answer in range, a question renders to the text one
  expects, a complete bank file loads, and an exam whose selections all name loaded
  banks and ask for no more than they hold is generated.
\<close>

lemma randbelow_any: "j < n \<Longrightarrow> randbelow n (j # g) = (j, g)"
  by simp

lemma to_latex_example:
  "to_latex q_abc False []
     = Inr (bs # ''question[1] Pick one'' @ [nl]
            @ bs # ''begin{choices}'' @ [nl]
            @ bs # ''choice A'' @ [nl]
            @ bs # ''correctchoice B'' @ [nl]
            @ bs # ''choice C'' @ [nl]
            @ bs # ''end{choices}'' @ [nl], q_abc, [])"
  by code_simp

lemma init_questions_complete:
  assumes "\<not> list_ex question_incomplete ds"
  shows "\<exists>rs s'. init_questions ds s = Inr (rs, s') \<and> length rs = length ds"
  using assms
proof (induction ds arbitrary: s)
  case Nil
  then show ?case by simp
next
  case (Cons d ds)
  from Cons.prems have d: "\<not> question_incomplete d"
    and ds: "\<not> list_ex question_incomplete ds"
    by simp_all
  obtain q where q: "Question_init d = Inr q"
    using Question_init_complete [OF d] by blast
  obtain rs s' where "init_questions ds (alloc q s) = Inr (rs, s')" "length rs = length ds"
    using Cons.IH [OF ds, of "alloc q s"] by blast
  with q show ?case by simp
qed

lemma QuestionBank_init_complete:
  assumes "fs yaml_file = Inr f" and "safe_load f = Inr data" and "\<not> bank_incomplete data"
  shows "\<exists>b s'. QuestionBank_init fs safe_load yaml_file s = Inr (b, s')
           \<and> name_key data = Some (name b)
           \<and> map_option length (questions_key data) = Some (length (questions b))"
proof -
  from assms(3) obtain n ds where n: "name_key data = Some n"
    and ds: "questions_key data = Some ds" and c: "\<not> list_ex question_incomplete ds"
    by (auto simp: bank_incomplete_def split: option.splits)
  obtain rs s' where "init_questions ds s = Inr (rs, s')" "length rs = length ds"
    using init_questions_complete [OF c, of s] by blast
  with assms(1,2) n ds show ?thesis
    by (simp add: QuestionBank_init_def)
qed

lemma sample_all_ok:
  assumes "\<forall>(nm, k) \<in> set sel.
             \<exists>bank. m nm = Some bank \<and> 0 \<le> k \<and> k \<le> int (length (questions bank))"
  shows "\<exists>qs g'. sample_all m sel acc g = Inr (qs, m, g')"
  using sample_all_passes [where m = m and before = sel and rest = "[]", OF assms, of acc g]
  by auto

lemma render_all_ok:
  assumes "\<forall>r. cache_ok (objs s r)"
  shows "\<exists>latex' s' g'. render_all rs latex s g = Inr (latex', s', g')"
  using assms
proof (induction rs arbitrary: latex s g)
  case Nil
  then show ?case by simp
next
  case (Cons r rs)
  from Cons.prems have "cache_ok (objs s r)" by simp
  from to_latex_shuffled [OF this, of g] obtain ixs g1 l where
    perm: "mset ixs = mset [0..<length (choices (objs s r))]"
    and t: "to_latex (objs s r) True g = Inr (l, (objs s r)\<lparr>shuffled_indices := Some ixs\<rparr>, g1)"
    by blast
  let ?s = "s\<lparr>objs := (objs s)(r := (objs s r)\<lparr>shuffled_indices := Some ixs\<rparr>)\<rparr>"
  have "\<forall>r'. cache_ok (objs ?s r')"
    using Cons.prems perm by (simp add: cache_ok_def)
  from Cons.IH [OF this, of "latex @ l @ [nl]" g1] t show ?case by simp
qed

lemma generate_exam_ok:
  assumes "generate_preamble fs self version = Inr (pre, printed)"
    and "\<forall>(nm, k) \<in> set sel.
           \<exists>bank. banks self nm = Some bank \<and> 0 \<le> k \<and> k \<le> int (length (questions bank))"
    and "\<forall>r. cache_ok (objs s r)"
  shows "\<exists>latex s' g'. generate_exam fs self sel version s g = Inr (latex, printed, self, s', g')"
proof -
  obtain qs g1 where a: "sample_all (banks self) sel [] g = Inr (qs, banks self, g1)"
    using sample_all_ok [where m = "banks self", OF assms(2), of "[]" g] by blast
  obtain latex' s' g2 where
    "render_all qs (pre @ bs # ''begin{questions}'' @ [nl]) s g1 = Inr (latex', s', g2)"
    using render_all_ok [OF assms(3)] by blast
  with assms(1) a show ?thesis by (simp add: generate_exam_def)
qed

subsection \<open>The text of a rendering and its lines\<close>

lemma to_latex_rendering:
  assumes "cache_ok q"
  shows "\<exists>cs q' g'.
           to_latex q sh g =
             Inr (question_header q @ concat (map (choice_line (correct_answers q)) cs)
                    @ choices_end, q', g')
         \<and> mset cs = mset (choices q)
         \<and> (\<not> sh \<longrightarrow> cs = choices q)"
proof (cases sh)
  case True
  then have sh: "sh = True" by simp
  obtain ixs g' where perm: "mset ixs = mset [0..<length (choices q)]"
    and r: "to_latex q True g =
               Inr (question_header q
                      @ concat (map (choice_line (correct_answers q)) (map ((!) (choices q)) ixs))
                      @ choices_end,
                    q\<lparr>shuffled_indices := Some ixs\<rparr>, g')"
    using to_latex_shuffled [OF assms, of g] by blast
  have m: "mset (map ((!) (choices q)) ixs) = mset (choices q)"
    by (rule mset_map_nth_perm [OF perm])
  show ?thesis unfolding sh
    by (intro exI conjI) (rule r, rule m, simp)
next
  case False
  then have sh: "sh = False" by simp
  show ?thesis unfolding sh
    by (intro exI conjI) (rule to_latex_unshuffled, simp_all)
qed

lemma text_lines_line:
  "CHR 0x0A \<notin> set l \<Longrightarrow> text_lines (l @ CHR 0x0A # rest) = l # text_lines rest"
  by (induction l) auto

lemma text_lines_block:
  assumes "\<forall>c \<in> set cs. CHR 0x0A \<notin> set (f c)"
  shows "text_lines (concat (map (\<lambda>c. f c @ [CHR 0x0A]) cs) @ rest)
           = map f cs @ text_lines rest"
  using assms
proof (induction cs)
  case Nil
  then show ?case by simp
next
  case (Cons c cs)
  then have c: "CHR 0x0A \<notin> set (f c)" and cs: "\<forall>c \<in> set cs. CHR 0x0A \<notin> set (f c)"
    by simp_all
  have "text_lines (concat (map (\<lambda>c. f c @ [CHR 0x0A]) (c # cs)) @ rest)
          = text_lines (f c @ CHR 0x0A # (concat (map (\<lambda>c. f c @ [CHR 0x0A]) cs) @ rest))"
    by simp
  also have "\<dots> = f c # text_lines (concat (map (\<lambda>c. f c @ [CHR 0x0A]) cs) @ rest)"
    by (rule text_lines_line [OF c])
  finally show ?case using Cons.IH [OF cs] by simp
qed

lemma filter_eq_single:
  "distinct xs \<Longrightarrow> x \<in> set xs \<Longrightarrow> filter (\<lambda>y. y = x) xs = [x]"
proof (induction xs)
  case Nil
  then show ?case by simp
next
  case (Cons a xs)
  show ?case
  proof (cases "a = x")
    case True
    with Cons.prems have "x \<notin> set xs" by simp
    then have "filter (\<lambda>y. y = x) xs = []" by (auto simp: filter_empty_conv)
    with True show ?thesis by simp
  next
    case False
    with Cons show ?thesis by simp
  qed
qed

lemma str_int_chars: "set (str_int i) \<subseteq> set ''-0123456789''"
proof -
  define S where "S = set ''-0123456789''"
  have w: "set ''0123456789'' \<subseteq> S" unfolding S_def by simp
  have d: "set (digits n) \<subseteq> S" for n
    using digits_chars [of n] w by (rule subset_trans)
  have m: "CHR ''-'' \<in> S" unfolding S_def by simp
  have "set (str_int i) \<subseteq> S"
  proof (cases "i < 0")
    case True
    then have "set (str_int i) = insert CHR ''-'' (set (digits (nat (- i))))"
      by (simp add: str_int_def)
    also have "\<dots> \<subseteq> S"
      using m d [of "nat (- i)"] by (rule insert_subsetI)
    finally show ?thesis .
  next
    case False
    then have "set (str_int i) = set (digits (nat i))"
      by (simp add: str_int_def)
    also have "\<dots> \<subseteq> S" by (rule d)
    finally show ?thesis .
  qed
  then show ?thesis unfolding S_def .
qed

lemma str_int_no_newline: "CHR 0x0A \<notin> set (str_int i)"
proof -
  have "CHR 0x0A \<notin> set ''-0123456789''" by simp
  with str_int_chars [of i] show ?thesis by blast
qed

subsection \<open>C8: one line is marked correct for a single correct answer\<close>

text \<open>
  Claim C8, as the code has it. For every question with a single correct answer, pairwise
  distinct choices that hold no newline character, and the correct answer among them,
  \<open>to_latex\<close>, with or without shuffling, returns the header line followed by the
  block of the choices. The lines of the block are the opening marker, one line per
  choice (the choices in a permutation, the declared order without shuffling) and the
  closing marker; the line of a choice is the marker of a correct choice and the choice
  when the choice is the correct answer, and the marker of a plain choice and the choice
  otherwise. Exactly one line of the block starts with the marker of a correct choice,
  and its text is the correct answer. When the question text holds no newline character
  either, the same is true of the lines of the whole rendering.
\<close>

theorem to_latex_marks_single_answer:
  assumes "cache_ok q" and "correct_answers q = Single ca"
    and "distinct (choices q)" and "ca \<in> set (choices q)"
    and "CHR 0x0A \<notin> set (concat (choices q))"
  shows "\<exists>out body cs q' g'.
           to_latex q shuffle g = Inr (out, q', g')
         \<and> out = (CHR 0x5C # ''question['' @ str_int (points q) @ ''] '' @ text q @ [CHR 0x0A])
                   @ body
         \<and> body = CHR 0x5C # ''begin{choices}'' @ [CHR 0x0A]
                   @ concat (map (\<lambda>c. (if c = ca then CHR 0x5C # ''correctchoice '' @ c
                                         else CHR 0x5C # ''choice '' @ c) @ [CHR 0x0A]) cs)
                   @ CHR 0x5C # ''end{choices}'' @ [CHR 0x0A]
         \<and> mset cs = mset (choices q)
         \<and> (\<not> shuffle \<longrightarrow> cs = choices q)
         \<and> text_lines body =
               (CHR 0x5C # ''begin{choices}'')
               # map (\<lambda>c. if c = ca then CHR 0x5C # ''correctchoice '' @ c
                          else CHR 0x5C # ''choice '' @ c) cs
               @ [CHR 0x5C # ''end{choices}'']
         \<and> filter (prefix (CHR 0x5C # ''correctchoice '')) (text_lines body)
               = [CHR 0x5C # ''correctchoice '' @ ca]
         \<and> (CHR 0x0A \<notin> set (text q) \<longrightarrow>
               text_lines out =
                 (CHR 0x5C # ''question['' @ str_int (points q) @ ''] '' @ text q)
                 # text_lines body
             \<and> filter (prefix (CHR 0x5C # ''correctchoice '')) (text_lines out)
                 = [CHR 0x5C # ''correctchoice '' @ ca])"
proof -
  let ?line = "\<lambda>c. if c = ca then CHR 0x5C # ''correctchoice '' @ c
                    else CHR 0x5C # ''choice '' @ c"
  let ?hdr = "CHR 0x5C # ''question['' @ str_int (points q) @ ''] '' @ text q"
  let ?mark = "CHR 0x5C # ''correctchoice ''"
  obtain cs q' g' where
    r: "to_latex q shuffle g =
          Inr (question_header q @ concat (map (choice_line (correct_answers q)) cs)
                 @ choices_end, q', g')"
    and m: "mset cs = mset (choices q)" and u: "\<not> shuffle \<longrightarrow> cs = choices q"
    using to_latex_rendering [OF assms(1), of shuffle g] by blast
  define body where
    "body = CHR 0x5C # ''begin{choices}'' @ [CHR 0x0A]
              @ concat (map (\<lambda>c. ?line c @ [CHR 0x0A]) cs)
              @ CHR 0x5C # ''end{choices}'' @ [CHR 0x0A]"
  define out where "out = (?hdr @ [CHR 0x0A]) @ body"
  have cl: "choice_line (Single ca) = (\<lambda>c. ?line c @ [CHR 0x0A])"
    by (rule ext)
      (simp add: choice_line_def correctchoice_line_def plainchoice_line_def bs_def nl_def)
  have "question_header q @ concat (map (choice_line (correct_answers q)) cs) @ choices_end
          = out"
    unfolding assms(2) cl
    by (simp add: question_header_def choices_end_def body_def out_def bs_def nl_def)
  with r have res: "to_latex q shuffle g = Inr (out, q', g')" by simp
  have s: "set cs = set (choices q)" using m by (rule mset_eq_setD)
  have d: "distinct cs" using mset_eq_imp_distinct_iff [OF m] assms(3) by simp
  have mem: "ca \<in> set cs" using s assms(4) by simp
  have free: "\<forall>c \<in> set cs. CHR 0x0A \<notin> set (?line c)"
    using assms(5) s by auto
  have e: "text_lines (CHR 0x5C # ''end{choices}'' @ [CHR 0x0A]) = [CHR 0x5C # ''end{choices}'']"
    by simp
  have "text_lines body =
          (CHR 0x5C # ''begin{choices}'')
          # text_lines (concat (map (\<lambda>c. ?line c @ [CHR 0x0A]) cs)
                          @ (CHR 0x5C # ''end{choices}'' @ [CHR 0x0A]))"
    unfolding body_def by simp
  also have "text_lines (concat (map (\<lambda>c. ?line c @ [CHR 0x0A]) cs)
                          @ (CHR 0x5C # ''end{choices}'' @ [CHR 0x0A]))
               = map ?line cs @ text_lines (CHR 0x5C # ''end{choices}'' @ [CHR 0x0A])"
    using free by (rule text_lines_block)
  finally have tl: "text_lines body =
      (CHR 0x5C # ''begin{choices}'') # map ?line cs @ [CHR 0x5C # ''end{choices}'']"
    unfolding e .
  have marked: "(\<lambda>c. prefix ?mark (?line c)) = (\<lambda>c. c = ca)"
    by (rule ext) simp
  have "filter (prefix ?mark) (map ?line cs) = map ?line (filter (\<lambda>c. prefix ?mark (?line c)) cs)"
    by (simp add: filter_map comp_def)
  also have "\<dots> = map ?line (filter (\<lambda>c. c = ca) cs)"
    unfolding marked ..
  also have "\<dots> = [?mark @ ca]"
    using filter_eq_single [OF d mem] by simp
  finally have fm: "filter (prefix ?mark) (map ?line cs) = [?mark @ ca]" .
  have fl: "filter (prefix ?mark) (text_lines body) = [?mark @ ca]"
    unfolding tl using fm by simp
  have whole: "text_lines out = ?hdr # text_lines body
             \<and> filter (prefix ?mark) (text_lines out) = [?mark @ ca]"
    if t: "CHR 0x0A \<notin> set (text q)"
  proof -
    have "CHR 0x0A \<notin> set ?hdr"
      using t str_int_no_newline [of "points q"] by simp
    then have "text_lines (?hdr @ CHR 0x0A # body) = ?hdr # text_lines body"
      by (rule text_lines_line)
    then have l: "text_lines out = ?hdr # text_lines body"
      by (simp add: out_def)
    have "\<not> prefix ?mark ?hdr" by simp
    with l fl show ?thesis by simp
  qed
  show ?thesis
    apply (rule exI [of _ out], rule exI [of _ body], rule exI [of _ cs])
    apply (rule exI [of _ q'], rule exI [of _ g'])
    using res m u tl fl whole
    by (simp add: out_def body_def comp_def)
qed

theorem to_latex_marks_single_answer_witness:
  "cache_ok q_abc \<and> correct_answers q_abc = Single ''B''
   \<and> distinct (choices q_abc) \<and> ''B'' \<in> set (choices q_abc)
   \<and> CHR 0x0A \<notin> set (concat (choices q_abc))
   \<and> CHR 0x0A \<notin> set (text q_abc)
   \<and> (\<exists>out body cs q' g'.
           to_latex q_abc True [0, 0] = Inr (out, q', g')
         \<and> out = (CHR 0x5C # ''question['' @ str_int (points q_abc) @ ''] '' @ text q_abc
                     @ [CHR 0x0A])
                   @ body
         \<and> body = CHR 0x5C # ''begin{choices}'' @ [CHR 0x0A]
                   @ concat (map (\<lambda>c. (if c = ''B'' then CHR 0x5C # ''correctchoice '' @ c
                                         else CHR 0x5C # ''choice '' @ c) @ [CHR 0x0A]) cs)
                   @ CHR 0x5C # ''end{choices}'' @ [CHR 0x0A]
         \<and> mset cs = mset (choices q_abc)
         \<and> (\<not> True \<longrightarrow> cs = choices q_abc)
         \<and> text_lines body =
               (CHR 0x5C # ''begin{choices}'')
               # map (\<lambda>c. if c = ''B'' then CHR 0x5C # ''correctchoice '' @ c
                          else CHR 0x5C # ''choice '' @ c) cs
               @ [CHR 0x5C # ''end{choices}'']
         \<and> filter (prefix (CHR 0x5C # ''correctchoice '')) (text_lines body)
               = [CHR 0x5C # ''correctchoice '' @ ''B'']
         \<and> (CHR 0x0A \<notin> set (text q_abc) \<longrightarrow>
               text_lines out =
                 (CHR 0x5C # ''question['' @ str_int (points q_abc) @ ''] '' @ text q_abc)
                 # text_lines body
             \<and> filter (prefix (CHR 0x5C # ''correctchoice '')) (text_lines out)
                 = [CHR 0x5C # ''correctchoice '' @ ''B'']))"
proof -
  have ok: "cache_ok q_abc" by (simp add: cache_ok_def q_abc_def)
  have ca: "correct_answers q_abc = Single ''B''" by (simp add: q_abc_def)
  have d: "distinct (choices q_abc)" by (simp add: q_abc_def)
  have i: "''B'' \<in> set (choices q_abc)" by (simp add: q_abc_def)
  have n: "CHR 0x0A \<notin> set (concat (choices q_abc))" by (simp add: q_abc_def)
  have t: "CHR 0x0A \<notin> set (text q_abc)" by (simp add: q_abc_def)
  note main = to_latex_marks_single_answer [OF ok ca d i n, of True "[0, 0]"]
  show ?thesis
    by (intro conjI ok ca d i n t main)
qed

text \<open>
  The claim as the specification states it fails for a choice that holds a newline
  character: the choice is rendered as it is, so what follows the newline character is
  a line of the rendering of its own. The question \<open>q_nl\<close> has distinct choices and its
  correct answer B among them; its rendering has two lines marked correct, and the text
  of the first of them is not the correct answer.
\<close>

theorem to_latex_newline_choice_counterexample:
  "correct_answers q_nl = Single ''B'' \<and> distinct (choices q_nl)
   \<and> ''B'' \<in> set (choices q_nl)
   \<and> to_latex q_nl False [] = Inr (rendering_nl, q_nl, [])
   \<and> text_lines rendering_nl =
        [CHR 0x5C # ''question[1] Pick one'', CHR 0x5C # ''begin{choices}'',
         CHR 0x5C # ''choice A'', CHR 0x5C # ''correctchoice Z'',
         CHR 0x5C # ''correctchoice B'', CHR 0x5C # ''end{choices}'']
   \<and> filter (prefix (CHR 0x5C # ''correctchoice '')) (text_lines rendering_nl) =
        [CHR 0x5C # ''correctchoice Z'', CHR 0x5C # ''correctchoice B'']"
  by code_simp

subsection \<open>C10: the type tag is never consulted\<close>

lemma shuffle_choices_type:
  "shuffle_choices (q\<lparr>type := t\<rparr>) g
     = ((fst (shuffle_choices q g))\<lparr>type := t\<rparr>, snd (shuffle_choices q g))"
  by (simp add: shuffle_choices_def split: prod.splits)

lemma get_shuffled_choices_type:
  "get_shuffled_choices (q\<lparr>type := t\<rparr>) g =
     (case get_shuffled_choices q g of
        Inl e \<Rightarrow> Inl e
      | Inr (r, q', g') \<Rightarrow> Inr (r, q'\<lparr>type := t\<rparr>, g'))"
  by (simp add: get_shuffled_choices_def shuffle_choices_type
      split: prod.splits option.splits sum.splits answers.splits)

lemma to_latex_type:
  "to_latex (q\<lparr>type := t\<rparr>) sh g =
     (case to_latex q sh g of
        Inl e \<Rightarrow> Inl e
      | Inr (s, q', g') \<Rightarrow> Inr (s, q'\<lparr>type := t\<rparr>, g'))"
  by (simp add: to_latex_def get_shuffled_choices_type question_header_def
      split: prod.splits sum.splits)

lemma get_shuffled_choices_returns:
  assumes "cache_ok q"
  shows "\<exists>cs q' g'.
           get_shuffled_choices q g =
             Inr ((cs, (case correct_answers q of
                          Multi cas \<Rightarrow> Multi (filter (\<lambda>c. c \<in> set cas) cs)
                        | Single ca \<Rightarrow> Single ca)), q', g')
         \<and> mset cs = mset (choices q)"
proof -
  obtain ixs g' where perm: "mset ixs = mset [0..<length (choices q)]"
    and r: "get_shuffled_choices q g =
               Inr ((map ((!) (choices q)) ixs,
                     (case correct_answers q of
                        Multi cas \<Rightarrow> Multi (filter (\<lambda>c. c \<in> set cas) (map ((!) (choices q)) ixs))
                      | Single ca \<Rightarrow> Single ca)),
                    q\<lparr>shuffled_indices := Some ixs\<rparr>, g')"
    using get_shuffled_choices_shape [OF assms, of g] by blast
  have "mset (map ((!) (choices q)) ixs) = mset (choices q)"
    by (rule mset_map_nth_perm [OF perm])
  with r show ?thesis by blast
qed

text \<open>
  Claim C10. Changing the type tag of a question changes nothing in what
  \<open>get_shuffled_choices\<close> and \<open>to_latex\<close> return, apart from the tag of the object
  itself: the tag is never read. What decides is the shape of \<open>correct_answers\<close>. With
  a list, whatever the tag says, the returned correct answers are the returned shuffled
  choices that are in the list, and the rendering has, for the choices in a permutation
  (in the declared order without shuffling), the line of a correct choice when the
  choice is in the list and the line of a plain choice otherwise. With a single string,
  whatever the tag says, the string is returned as it is, and the rendering has the line
  of a correct choice when the choice equals the string and the line of a plain choice
  otherwise.
\<close>

theorem answers_shape_decides_semantics:
  "get_shuffled_choices (q\<lparr>type := t\<rparr>) g =
     (case get_shuffled_choices q g of
        Inl e \<Rightarrow> Inl e
      | Inr (r, q', g') \<Rightarrow> Inr (r, q'\<lparr>type := t\<rparr>, g'))
   \<and> to_latex (q\<lparr>type := t\<rparr>) sh g =
     (case to_latex q sh g of
        Inl e \<Rightarrow> Inl e
      | Inr (s, q', g') \<Rightarrow> Inr (s, q'\<lparr>type := t\<rparr>, g'))
   \<and> (cache_ok q \<and> correct_answers q = Multi cas \<longrightarrow>
        (\<exists>cs q' g'. get_shuffled_choices q g =
            Inr ((cs, Multi (filter (\<lambda>c. c \<in> set cas) cs)), q', g')
          \<and> mset cs = mset (choices q))
      \<and> (\<exists>cs q' g'. to_latex q sh g =
            Inr ((CHR 0x5C # ''question['' @ str_int (points q) @ ''] '' @ text q @ [CHR 0x0A])
                   @ CHR 0x5C # ''begin{choices}'' @ [CHR 0x0A]
                   @ concat (map (\<lambda>c. (if c \<in> set cas then CHR 0x5C # ''correctchoice '' @ c
                                         else CHR 0x5C # ''choice '' @ c) @ [CHR 0x0A]) cs)
                   @ CHR 0x5C # ''end{choices}'' @ [CHR 0x0A], q', g')
          \<and> mset cs = mset (choices q)
          \<and> (\<not> sh \<longrightarrow> cs = choices q)))
   \<and> (cache_ok q \<and> correct_answers q = Single ca \<longrightarrow>
        (\<exists>cs q' g'. get_shuffled_choices q g = Inr ((cs, Single ca), q', g')
          \<and> mset cs = mset (choices q))
      \<and> (\<exists>cs q' g'. to_latex q sh g =
            Inr ((CHR 0x5C # ''question['' @ str_int (points q) @ ''] '' @ text q @ [CHR 0x0A])
                   @ CHR 0x5C # ''begin{choices}'' @ [CHR 0x0A]
                   @ concat (map (\<lambda>c. (if c = ca then CHR 0x5C # ''correctchoice '' @ c
                                         else CHR 0x5C # ''choice '' @ c) @ [CHR 0x0A]) cs)
                   @ CHR 0x5C # ''end{choices}'' @ [CHR 0x0A], q', g')
          \<and> mset cs = mset (choices q)
          \<and> (\<not> sh \<longrightarrow> cs = choices q)))"
proof -
  have rendering: "\<exists>cs q' g'. to_latex q sh g =
            Inr ((CHR 0x5C # ''question['' @ str_int (points q) @ ''] '' @ text q @ [CHR 0x0A])
                   @ CHR 0x5C # ''begin{choices}'' @ [CHR 0x0A]
                   @ concat (map (\<lambda>c. (if P c then CHR 0x5C # ''correctchoice '' @ c
                                         else CHR 0x5C # ''choice '' @ c) @ [CHR 0x0A]) cs)
                   @ CHR 0x5C # ''end{choices}'' @ [CHR 0x0A], q', g')
          \<and> mset cs = mset (choices q)
          \<and> (\<not> sh \<longrightarrow> cs = choices q)"
    if ok: "cache_ok q"
      and cl: "choice_line (correct_answers q) =
                 (\<lambda>c. (if P c then CHR 0x5C # ''correctchoice '' @ c
                        else CHR 0x5C # ''choice '' @ c) @ [CHR 0x0A])"
    for P
  proof -
    obtain cs q' g' where
      r: "to_latex q sh g =
            Inr (question_header q @ concat (map (choice_line (correct_answers q)) cs)
                   @ choices_end, q', g')"
      and m: "mset cs = mset (choices q)" and u: "\<not> sh \<longrightarrow> cs = choices q"
      using to_latex_rendering [OF ok, of sh g] by blast
    have "to_latex q sh g =
            Inr ((CHR 0x5C # ''question['' @ str_int (points q) @ ''] '' @ text q @ [CHR 0x0A])
                   @ CHR 0x5C # ''begin{choices}'' @ [CHR 0x0A]
                   @ concat (map (\<lambda>c. (if P c then CHR 0x5C # ''correctchoice '' @ c
                                         else CHR 0x5C # ''choice '' @ c) @ [CHR 0x0A]) cs)
                   @ CHR 0x5C # ''end{choices}'' @ [CHR 0x0A], q', g')"
      using r unfolding cl
      by (simp add: question_header_def choices_end_def bs_def nl_def)
    with m u show ?thesis by blast
  qed
  have multi:
    "(\<exists>cs q' g'. get_shuffled_choices q g =
            Inr ((cs, Multi (filter (\<lambda>c. c \<in> set cas) cs)), q', g')
          \<and> mset cs = mset (choices q))
      \<and> (\<exists>cs q' g'. to_latex q sh g =
            Inr ((CHR 0x5C # ''question['' @ str_int (points q) @ ''] '' @ text q @ [CHR 0x0A])
                   @ CHR 0x5C # ''begin{choices}'' @ [CHR 0x0A]
                   @ concat (map (\<lambda>c. (if c \<in> set cas then CHR 0x5C # ''correctchoice '' @ c
                                         else CHR 0x5C # ''choice '' @ c) @ [CHR 0x0A]) cs)
                   @ CHR 0x5C # ''end{choices}'' @ [CHR 0x0A], q', g')
          \<and> mset cs = mset (choices q)
          \<and> (\<not> sh \<longrightarrow> cs = choices q))"
    if a: "cache_ok q \<and> correct_answers q = Multi cas"
  proof (rule conjI)
    from a have ok: "cache_ok q" and m: "correct_answers q = Multi cas" by simp_all
    show "\<exists>cs q' g'. get_shuffled_choices q g =
            Inr ((cs, Multi (filter (\<lambda>c. c \<in> set cas) cs)), q', g')
          \<and> mset cs = mset (choices q)"
      using get_shuffled_choices_returns [OF ok, of g] m by simp
    have "choice_line (correct_answers q) =
            (\<lambda>c. (if c \<in> set cas then CHR 0x5C # ''correctchoice '' @ c
                   else CHR 0x5C # ''choice '' @ c) @ [CHR 0x0A])"
      unfolding m
      by (rule ext)
        (simp add: choice_line_def correctchoice_line_def plainchoice_line_def bs_def nl_def)
    from rendering [OF ok this]
    show "\<exists>cs q' g'. to_latex q sh g =
            Inr ((CHR 0x5C # ''question['' @ str_int (points q) @ ''] '' @ text q @ [CHR 0x0A])
                   @ CHR 0x5C # ''begin{choices}'' @ [CHR 0x0A]
                   @ concat (map (\<lambda>c. (if c \<in> set cas then CHR 0x5C # ''correctchoice '' @ c
                                         else CHR 0x5C # ''choice '' @ c) @ [CHR 0x0A]) cs)
                   @ CHR 0x5C # ''end{choices}'' @ [CHR 0x0A], q', g')
          \<and> mset cs = mset (choices q)
          \<and> (\<not> sh \<longrightarrow> cs = choices q)" .
  qed
  have single:
    "(\<exists>cs q' g'. get_shuffled_choices q g = Inr ((cs, Single ca), q', g')
          \<and> mset cs = mset (choices q))
      \<and> (\<exists>cs q' g'. to_latex q sh g =
            Inr ((CHR 0x5C # ''question['' @ str_int (points q) @ ''] '' @ text q @ [CHR 0x0A])
                   @ CHR 0x5C # ''begin{choices}'' @ [CHR 0x0A]
                   @ concat (map (\<lambda>c. (if c = ca then CHR 0x5C # ''correctchoice '' @ c
                                         else CHR 0x5C # ''choice '' @ c) @ [CHR 0x0A]) cs)
                   @ CHR 0x5C # ''end{choices}'' @ [CHR 0x0A], q', g')
          \<and> mset cs = mset (choices q)
          \<and> (\<not> sh \<longrightarrow> cs = choices q))"
    if a: "cache_ok q \<and> correct_answers q = Single ca"
  proof (rule conjI)
    from a have ok: "cache_ok q" and m: "correct_answers q = Single ca" by simp_all
    show "\<exists>cs q' g'. get_shuffled_choices q g = Inr ((cs, Single ca), q', g')
          \<and> mset cs = mset (choices q)"
      using get_shuffled_choices_returns [OF ok, of g] m by simp
    have "choice_line (correct_answers q) =
            (\<lambda>c. (if c = ca then CHR 0x5C # ''correctchoice '' @ c
                   else CHR 0x5C # ''choice '' @ c) @ [CHR 0x0A])"
      unfolding m
      by (rule ext)
        (simp add: choice_line_def correctchoice_line_def plainchoice_line_def bs_def nl_def)
    from rendering [OF ok this]
    show "\<exists>cs q' g'. to_latex q sh g =
            Inr ((CHR 0x5C # ''question['' @ str_int (points q) @ ''] '' @ text q @ [CHR 0x0A])
                   @ CHR 0x5C # ''begin{choices}'' @ [CHR 0x0A]
                   @ concat (map (\<lambda>c. (if c = ca then CHR 0x5C # ''correctchoice '' @ c
                                         else CHR 0x5C # ''choice '' @ c) @ [CHR 0x0A]) cs)
                   @ CHR 0x5C # ''end{choices}'' @ [CHR 0x0A], q', g')
          \<and> mset cs = mset (choices q)
          \<and> (\<not> sh \<longrightarrow> cs = choices q)" .
  qed
  show ?thesis
    apply (rule conjI, rule get_shuffled_choices_type)
    apply (rule conjI, rule to_latex_type)
    apply (rule conjI, rule impI, rule multi, assumption)
    apply (rule impI, rule single, assumption)
    done
qed

theorem answers_shape_decides_semantics_witness:
  "(type q_tag_choice_list = ''multiple_choice''
    \<and> cache_ok q_tag_choice_list
    \<and> correct_answers q_tag_choice_list = Multi [''A'', ''B'']
    \<and> (\<exists>cs q' g'. get_shuffled_choices q_tag_choice_list [1] =
            Inr ((cs, Multi (filter (\<lambda>c. c \<in> set [''A'', ''B'']) cs)), q', g')
          \<and> mset cs = mset (choices q_tag_choice_list))
    \<and> (\<exists>cs q' g'. to_latex q_tag_choice_list False [1] =
            Inr ((CHR 0x5C # ''question['' @ str_int (points q_tag_choice_list) @ ''] ''
                    @ text q_tag_choice_list @ [CHR 0x0A])
                   @ CHR 0x5C # ''begin{choices}'' @ [CHR 0x0A]
                   @ concat (map (\<lambda>c. (if c \<in> set [''A'', ''B'']
                                         then CHR 0x5C # ''correctchoice '' @ c
                                         else CHR 0x5C # ''choice '' @ c) @ [CHR 0x0A]) cs)
                   @ CHR 0x5C # ''end{choices}'' @ [CHR 0x0A], q', g')
          \<and> mset cs = mset (choices q_tag_choice_list)
          \<and> (\<not> False \<longrightarrow> cs = choices q_tag_choice_list)))
   \<and> (type q_tag_selection_single = ''multiple_selection''
    \<and> cache_ok q_tag_selection_single
    \<and> correct_answers q_tag_selection_single = Single ''A''
    \<and> (\<exists>cs q' g'. get_shuffled_choices q_tag_selection_single [1] =
            Inr ((cs, Single ''A''), q', g')
          \<and> mset cs = mset (choices q_tag_selection_single))
    \<and> (\<exists>cs q' g'. to_latex q_tag_selection_single False [1] =
            Inr ((CHR 0x5C # ''question['' @ str_int (points q_tag_selection_single) @ ''] ''
                    @ text q_tag_selection_single @ [CHR 0x0A])
                   @ CHR 0x5C # ''begin{choices}'' @ [CHR 0x0A]
                   @ concat (map (\<lambda>c. (if c = ''A''
                                         then CHR 0x5C # ''correctchoice '' @ c
                                         else CHR 0x5C # ''choice '' @ c) @ [CHR 0x0A]) cs)
                   @ CHR 0x5C # ''end{choices}'' @ [CHR 0x0A], q', g')
          \<and> mset cs = mset (choices q_tag_selection_single)
          \<and> (\<not> False \<longrightarrow> cs = choices q_tag_selection_single)))"
proof -
  have t1: "type q_tag_choice_list = ''multiple_choice''"
    by (simp add: q_tag_choice_list_def)
  have ok1: "cache_ok q_tag_choice_list"
    by (simp add: cache_ok_def q_tag_choice_list_def)
  have m1: "correct_answers q_tag_choice_list = Multi [''A'', ''B'']"
    by (simp add: q_tag_choice_list_def)
  have t2: "type q_tag_selection_single = ''multiple_selection''"
    by (simp add: q_tag_selection_single_def)
  have ok2: "cache_ok q_tag_selection_single"
    by (simp add: cache_ok_def q_tag_selection_single_def)
  have m2: "correct_answers q_tag_selection_single = Single ''A''"
    by (simp add: q_tag_selection_single_def)
  note main1 = answers_shape_decides_semantics
    [where q = q_tag_choice_list and t = "type q_tag_choice_list" and g = "[1]"
      and sh = False and cas = "[''A'', ''B'']" and ca = "''A''"]
  note main2 = answers_shape_decides_semantics
    [where q = q_tag_selection_single and t = "type q_tag_selection_single" and g = "[1]"
      and sh = False and cas = "[]" and ca = "''A''"]
  note r1 = main1 [THEN conjunct2, THEN conjunct2, THEN conjunct1, rule_format,
      OF conjI [OF ok1 m1]]
  note r2 = main2 [THEN conjunct2, THEN conjunct2, THEN conjunct2, rule_format,
      OF conjI [OF ok2 m2]]
  show ?thesis
    by (intro conjI t1 ok1 m1 t2 ok2 m2 conjunct1 [OF r1] conjunct2 [OF r1]
        conjunct1 [OF r2] conjunct2 [OF r2])
qed

end
